theory Spec2Isabelle
  imports Complex_Main
begin

section \<open>Text: Python strings as lists of code points\<close>

text \<open>
  A Python \<open>str\<close> is a sequence of Unicode code points and \<open>len\<close> counts code points,
  so text is modelled as a list of naturals. The tables below are those of CPython's
  Unicode database: \<open>is_space\<close> is \<open>str.isspace\<close> (the class \<open>\s\<close> of \<open>re\<close> and the
  characters removed by \<open>str.strip()\<close>), \<open>is_linebreak\<close> are the boundaries of
  \<open>str.splitlines\<close>, \<open>is_digit\<close> is the category Nd (the class \<open>\d\<close> of \<open>re\<close>): every
  block of ten digits starts at one of \<open>digit_zeros\<close>.

  \<open>lower_cp\<close> is \<open>str.lower\<close> on Basic Latin and Latin-1 Supplement; the case mapping of
  the code points above U+00FF is not reproduced (they are left unchanged).
\<close>

type_synonym str = "nat list"

definition ascii :: "string \<Rightarrow> str" where
  "ascii s = map of_char s"

definition is_space :: "nat \<Rightarrow> bool" where
  "is_space c \<longleftrightarrow> c \<in> set [9, 10, 11, 12, 13, 28, 29, 30, 31, 32, 133, 160, 5760,
     8192, 8193, 8194, 8195, 8196, 8197, 8198, 8199, 8200, 8201, 8202,
     8232, 8233, 8239, 8287, 12288]"

definition is_linebreak :: "nat \<Rightarrow> bool" where
  "is_linebreak c \<longleftrightarrow> c \<in> set [10, 11, 12, 13, 28, 29, 30, 133, 8232, 8233]"

definition digit_zeros :: "nat list" where
  "digit_zeros = [1632, 1776, 1984, 2406, 2534, 2662, 2790, 2918, 3046, 3174, 3302,
     3430, 3558, 3664, 3792, 3872, 4160, 4240, 6112, 6160, 6470, 6608, 6784, 6800, 6992,
     7088, 7232, 7248, 42528, 43216, 43264, 43472, 43504, 43600, 44016, 65296, 66720,
     68912, 69734, 69872, 69942, 70096, 70384, 70736, 70864, 71248, 71360, 71472, 71904,
     72016, 72784, 73040, 73120, 92768, 92864, 93008, 120782, 120792, 120802, 120812,
     120822, 123200, 123632, 125264, 130032]"

definition is_digit :: "nat \<Rightarrow> bool" where
  "is_digit c \<longleftrightarrow>
     (if c < 128 then 48 \<le> c \<and> c \<le> 57
      else list_ex (\<lambda>z. z \<le> c \<and> c < z + 10) digit_zeros)"

definition digit_value :: "nat \<Rightarrow> nat" where
  "digit_value c =
     (if c < 128 then c - 48
      else (case filter (\<lambda>z. z \<le> c \<and> c < z + 10) digit_zeros of
              [] \<Rightarrow> 0 | z # _ \<Rightarrow> c - z))"

definition lower_cp :: "nat \<Rightarrow> nat" where
  "lower_cp c =
     (if (65 \<le> c \<and> c \<le> 90) \<or> (192 \<le> c \<and> c \<le> 222 \<and> c \<noteq> 215) then c + 32 else c)"

definition lower :: "str \<Rightarrow> str" where
  "lower s = map lower_cp s"

definition strip :: "str \<Rightarrow> str" where
  "strip s = rev (dropWhile is_space (rev (dropWhile is_space s)))"

text \<open>\<open>s.strip(chars)\<close>: the characters of \<open>chars\<close> are removed at both ends.\<close>

definition strip_chars :: "str \<Rightarrow> str \<Rightarrow> str" where
  "strip_chars chars s =
     rev (dropWhile (\<lambda>c. c \<in> set chars) (rev (dropWhile (\<lambda>c. c \<in> set chars) s)))"

text \<open>
  \<open>s.splitlines()\<close>: the text is cut at every line boundary, \<open>\r\n\<close> counting as one,
  and there is no empty last line.
\<close>

fun splitlines_from :: "str \<Rightarrow> str \<Rightarrow> str list" where
  "splitlines_from cur [] = (if cur = [] then [] else [cur])"
| "splitlines_from cur [c] =
     (if is_linebreak c then [cur] else [cur @ [c]])"
| "splitlines_from cur (c # d # r) =
     (if c = 13 \<and> d = 10 then cur # splitlines_from [] r
      else if is_linebreak c then cur # splitlines_from [] (d # r)
      else splitlines_from (cur @ [c]) (d # r))"

definition splitlines :: "str \<Rightarrow> str list" where
  "splitlines s = splitlines_from [] s"

text \<open>\<open>s.split(sep)\<close> for a separator of one character: never empty.\<close>

fun split_on :: "nat \<Rightarrow> str \<Rightarrow> str list" where
  "split_on sep [] = [[]]"
| "split_on sep (c # r) =
     (if c = sep then [] # split_on sep r
      else (case split_on sep r of
              [] \<Rightarrow> [[c]]
            | w # ws \<Rightarrow> (c # w) # ws))"

text \<open>\<open>s.split()\<close>: the maximal runs of characters that are not whitespace.\<close>

fun split_ws_from :: "str \<Rightarrow> str \<Rightarrow> str list" where
  "split_ws_from cur [] = (if cur = [] then [] else [cur])"
| "split_ws_from cur (c # r) =
     (if is_space c then (if cur = [] then split_ws_from [] r else cur # split_ws_from [] r)
      else split_ws_from (cur @ [c]) r)"

definition split_ws :: "str \<Rightarrow> str list" where
  "split_ws s = split_ws_from [] s"

text \<open>\<open>sep.join(parts)\<close>.\<close>

fun join :: "str \<Rightarrow> str list \<Rightarrow> str" where
  "join sep [] = []"
| "join sep [x] = x"
| "join sep (x # y # r) = x @ sep @ join sep (y # r)"

text \<open>\<open>word in s\<close> on strings: \<open>word\<close> occurs in \<open>s\<close> as a contiguous block.\<close>

fun str_contains :: "str \<Rightarrow> str \<Rightarrow> bool" where
  "str_contains word [] = (word = [])"
| "str_contains word (c # r) =
     (take (length word) (c # r) = word \<or> str_contains word r)"

section \<open>Regular expressions: a backtracking matcher\<close>

text \<open>
  Python's \<open>re\<close> is a backtracking matcher: the alternatives of a pattern are tried in
  a fixed order and the first complete match is the result. Each piece of a pattern is
  a function that takes the matcher of the rest of the pattern (the continuation) and
  the text from the current position on; \<open>None\<close> is failure. A greedy repetition tries
  the longest repetition first, a lazy one the shortest first.
\<close>

type_synonym 'a cont = "str \<Rightarrow> 'a option"

definition rx_char :: "(nat \<Rightarrow> bool) \<Rightarrow> 'a cont \<Rightarrow> 'a cont" where
  "rx_char P k s = (case s of [] \<Rightarrow> None | c # r \<Rightarrow> if P c then k r else None)"

fun rx_lit :: "str \<Rightarrow> 'a cont \<Rightarrow> 'a cont" where
  "rx_lit [] k s = k s"
| "rx_lit (c # cs) k s =
     (case s of [] \<Rightarrow> None | d # r \<Rightarrow> if d = c then rx_lit cs k r else None)"

fun rx_star :: "(nat \<Rightarrow> bool) \<Rightarrow> 'a cont \<Rightarrow> 'a cont" where
  "rx_star P k [] = k []"
| "rx_star P k (c # r) =
     (if P c then (case rx_star P k r of Some x \<Rightarrow> Some x | None \<Rightarrow> k (c # r))
      else k (c # r))"

definition rx_plus :: "(nat \<Rightarrow> bool) \<Rightarrow> 'a cont \<Rightarrow> 'a cont" where
  "rx_plus P k = rx_char P (rx_star P k)"

definition rx_opt :: "(nat \<Rightarrow> bool) \<Rightarrow> 'a cont \<Rightarrow> 'a cont" where
  "rx_opt P k s =
     (case s of
        [] \<Rightarrow> k []
      | c # r \<Rightarrow>
          if P c then (case k r of Some x \<Rightarrow> Some x | None \<Rightarrow> k (c # r)) else k (c # r))"

fun rx_lazy_star :: "(nat \<Rightarrow> bool) \<Rightarrow> 'a cont \<Rightarrow> 'a cont" where
  "rx_lazy_star P k [] = k []"
| "rx_lazy_star P k (c # r) =
     (case k (c # r) of
        Some x \<Rightarrow> Some x
      | None \<Rightarrow> if P c then rx_lazy_star P k r else None)"

definition rx_lazy_plus :: "(nat \<Rightarrow> bool) \<Rightarrow> 'a cont \<Rightarrow> 'a cont" where
  "rx_lazy_plus P k = rx_char P (rx_lazy_star P k)"

text \<open>A capturing group hands the text it matched to the rest of the pattern.\<close>

definition rx_group :: "('a cont \<Rightarrow> 'a cont) \<Rightarrow> (str \<Rightarrow> 'a cont) \<Rightarrow> 'a cont" where
  "rx_group r k s = r (\<lambda>rest. k (take (length s - length rest) s) rest) s"

text \<open>
  \<open>$\<close> without \<open>re.MULTILINE\<close> matches at the end of the text and before a newline that
  ends the text; with \<open>re.MULTILINE\<close> it matches before every newline too.
\<close>

definition rx_dollar :: "'a cont \<Rightarrow> 'a cont" where
  "rx_dollar k s = (if s = [] \<or> s = [10] then k s else None)"

definition rx_dollar_multiline :: "'a cont \<Rightarrow> 'a cont" where
  "rx_dollar_multiline k s = (case s of [] \<Rightarrow> k [] | c # r \<Rightarrow> if c = 10 then k s else None)"

text \<open>\<open>pattern.search\<close>: the first position, from the left, at which the pattern matches.\<close>

fun rx_search :: "'a cont \<Rightarrow> 'a cont" where
  "rx_search m [] = m []"
| "rx_search m (c # r) = (case m (c # r) of Some x \<Rightarrow> Some x | None \<Rightarrow> rx_search m r)"

section \<open>Constants of the program\<close>

definition WEEKDAYS_DE :: "string list" where
  "WEEKDAYS_DE = [''Montag'', ''Dienstag'', ''Mittwoch'', ''Donnerstag'', ''Freitag'',
     ''Samstag'', ''Sonntag'']"

definition MENU_PAGE_INDEX :: nat where
  "MENU_PAGE_INDEX = 1"

definition DISH_COLUMN_INDICES :: "nat list" where
  "DISH_COLUMN_INDICES = [4, 8, 12, 16, 20]"

text \<open>
  The currency marker of \<open>PRICE_LINE_RE\<close>, the euro sign of the price lines. The source
  file holds this literal as the bytes E2 80 9A C3 87 C2 A8, the three code points
  U+201A U+00C7 U+00A8 (the UTF-8 bytes E2 82 AC of U+20AC shown in Mac OS Roman and
  stored again as UTF-8). The model reads the file as Python does, as UTF-8, and a price
  line is written with this marker.
\<close>

definition EURO :: str where
  "EURO = [8218, 199, 168]"

text \<open>\<open>\d{1,2},\d{2}\<close>: one price.\<close>

definition rx_price :: "'a cont \<Rightarrow> 'a cont" where
  "rx_price k =
     rx_char is_digit (rx_opt is_digit
       (rx_char (\<lambda>c. c = 44) (rx_char is_digit (rx_char is_digit k))))"

text \<open>\<open>\s*EURO\s*\|\s*\<close>: what stands between two prices.\<close>

definition rx_price_sep :: "'a cont \<Rightarrow> 'a cont" where
  "rx_price_sep k =
     rx_star is_space (rx_lit EURO (rx_star is_space (rx_lit [124] (rx_star is_space k))))"

text \<open>
  \<open>PRICE_LINE_RE\<close>, matched at the start of the text; the result is the three groups.
\<close>

definition PRICE_LINE_RE :: "(str \<times> str \<times> str) cont" where
  "PRICE_LINE_RE =
     rx_group rx_price (\<lambda>g1. rx_price_sep (
     rx_group rx_price (\<lambda>g2. rx_price_sep (
     rx_group rx_price (\<lambda>g3. rx_star is_space (rx_lit EURO (\<lambda>rest. Some (g1, g2, g3))))))))"

definition PRICE_LINE_RE_search :: "str \<Rightarrow> (str \<times> str \<times> str) option" where
  "PRICE_LINE_RE_search line = rx_search PRICE_LINE_RE line"

text \<open>
  \<open>re.sub(pattern, repl, s)\<close>: the matches of the pattern, found from left to right and
  not overlapping, are replaced. \<open>m\<close> is the pattern at the current position and returns
  the text after its match; the number counts the characters of a match that are still
  to be skipped. (The patterns of this program match no empty text.)
\<close>

definition rx_alt :: "('a cont \<Rightarrow> 'a cont) \<Rightarrow> ('a cont \<Rightarrow> 'a cont) \<Rightarrow> 'a cont \<Rightarrow> 'a cont" where
  "rx_alt a b k s = (case a k s of Some x \<Rightarrow> Some x | None \<Rightarrow> b k s)"

fun re_sub_from :: "str cont \<Rightarrow> str \<Rightarrow> nat \<Rightarrow> str \<Rightarrow> str" where
  "re_sub_from m repl n [] = []"
| "re_sub_from m repl (Suc n) (c # r) = re_sub_from m repl n r"
| "re_sub_from m repl 0 (c # r) =
     (case m (c # r) of
        None \<Rightarrow> c # re_sub_from m repl 0 r
      | Some rest \<Rightarrow>
          if length rest < length (c # r)
          then repl @ re_sub_from m repl (length r - length rest) r
          else repl @ c # re_sub_from m repl 0 r)"

definition re_sub :: "str cont \<Rightarrow> str \<Rightarrow> str \<Rightarrow> str" where
  "re_sub m repl s = re_sub_from m repl 0 s"

section \<open>The program's data\<close>

datatype error = IndexError | KeyError | ValueError

text \<open>
  A \<open>dict\<close> keeps its keys in the order of their insertion: an association list.
  \<open>d[k]\<close> raises \<open>KeyError\<close> for a key that is absent; an assignment to a key that is
  present keeps its place.
\<close>

type_synonym ('k, 'v) dict = "('k \<times> 'v) list"

definition dict_get :: "('k, 'v) dict \<Rightarrow> 'k \<Rightarrow> error + 'v" where
  "dict_get d k = (case map_of d k of None \<Rightarrow> Inl KeyError | Some v \<Rightarrow> Inr v)"

fun dict_set :: "('k, 'v) dict \<Rightarrow> 'k \<Rightarrow> 'v \<Rightarrow> ('k, 'v) dict" where
  "dict_set [] k v = [(k, v)]"
| "dict_set ((k', v') # d) k v =
     (if k' = k then (k, v) # d else (k', v') # dict_set d k v)"

text \<open>A loop whose body can raise: the first error ends it.\<close>

fun fold_err :: "('s \<Rightarrow> 'a \<Rightarrow> error + 's) \<Rightarrow> 'a list \<Rightarrow> 's \<Rightarrow> error + 's" where
  "fold_err f [] s = Inr s"
| "fold_err f (x # xs) s = (case f s x of Inl e \<Rightarrow> Inl e | Inr s' \<Rightarrow> fold_err f xs s')"

text \<open>The fields of \<open>Config\<close> that the parser reads, and its two properties.\<close>

record config =
  filter_words_raw :: str
  filter_allergens_raw :: str
  debug_mode :: bool

definition filter_words :: "config \<Rightarrow> str set" where
  "filter_words cfg =
     set (map (\<lambda>word. lower (strip word))
            (filter (\<lambda>word. strip word \<noteq> []) (split_on 44 (filter_words_raw cfg))))"

definition filter_allergen_names :: "config \<Rightarrow> str set" where
  "filter_allergen_names cfg =
     set (map (\<lambda>name. lower (strip name))
            (filter (\<lambda>name. strip name \<noteq> []) (split_on 44 (filter_allergens_raw cfg))))"

record dish =
  title :: str
  price :: rat
  category :: string
  allergens :: "str set"

text \<open>
  The document as \<open>pdfplumber\<close> hands it over: for every page the result of
  \<open>extract_text()\<close> and of \<open>extract_table()\<close> (\<open>None\<close> when the page has no table; a
  cell of a table is a text or \<open>None\<close>).
\<close>

type_synonym row = "str option list"
type_synonym table = "row list"

record page =
  extract_text :: str
  extract_table :: "table option"

record cell =
  "text" :: str
  has_price :: bool

record parser =
  pages :: "page list"
  config :: config
  allergen_map :: "(str, str) dict"
  filter_allergen_numbers :: "str set"

section \<open>The cell merger\<close>

text \<open>\<open>any(PRICE_LINE_RE.search(line) for line in cell_text.splitlines())\<close>\<close>

definition any_price_line :: "str \<Rightarrow> bool" where
  "any_price_line cell_text =
     list_ex (\<lambda>line. PRICE_LINE_RE_search line \<noteq> None) (splitlines cell_text)"

text \<open>The body of the inner loop of \<open>_merge_table_cells\<close>, for one day and its column.\<close>

definition merge_cell ::
  "row \<Rightarrow> (string, cell list) dict \<Rightarrow> string \<times> nat \<Rightarrow> error + (string, cell list) dict" where
  "merge_cell row merged_cells dc =
     (case dc of (day, col_idx) \<Rightarrow>
        if col_idx < length row then
          (case row ! col_idx of
             None \<Rightarrow> Inr merged_cells
           | Some cell_text \<Rightarrow>
               if cell_text = [] \<or> strip cell_text = [] then Inr merged_cells
               else
                 (case dict_get merged_cells day of
                    Inl e \<Rightarrow> Inl e
                  | Inr cells \<Rightarrow>
                      if cells \<noteq> [] \<and> \<not> has_price (last cells)
                      then Inr (dict_set merged_cells day
                             (butlast cells @
                                [\<lparr>text = text (last cells) @ [10] @ cell_text,
                                  has_price = any_price_line cell_text\<rparr>]))
                      else Inr (dict_set merged_cells day
                             (cells @
                                [\<lparr>text = cell_text,
                                  has_price = any_price_line cell_text\<rparr>]))))
        else Inl IndexError)"

definition merge_row ::
  "(string, cell list) dict \<Rightarrow> row \<Rightarrow> error + (string, cell list) dict" where
  "merge_row merged_cells row =
     (if row = [] \<or> length row < Max (set DISH_COLUMN_INDICES) + 1 then Inr merged_cells
      else fold_err (merge_cell row) (zip (take 5 WEEKDAYS_DE) DISH_COLUMN_INDICES)
             merged_cells)"

definition merge_table_cells :: "table \<Rightarrow> error + (string, cell list) dict" where
  "merge_table_cells table =
     fold_err merge_row table (map (\<lambda>day. (day, [])) (take 5 WEEKDAYS_DE))"

section \<open>The dish extractor\<close>

text \<open>\<open>re.sub(r'-\s+|\s+', ' ', ...)\<close>: the pattern, with the text after the match as result.\<close>

definition TITLE_SPACE_RE :: "str cont" where
  "TITLE_SPACE_RE =
     rx_alt (\<lambda>k. rx_char (\<lambda>c. c = 45) (rx_plus is_space k)) (rx_plus is_space) Some"

text \<open>\<open>[0-9,\s\.a-z]\<close>\<close>

definition allergen_char :: "nat \<Rightarrow> bool" where
  "allergen_char c \<longleftrightarrow>
     (48 \<le> c \<and> c \<le> 57) \<or> c = 44 \<or> is_space c \<or> c = 46 \<or> (97 \<le> c \<and> c \<le> 122)"

text \<open>\<open>\([0-9,\s\.a-z]+\)\<close>\<close>

definition rx_allergen_group :: "'a cont \<Rightarrow> 'a cont" where
  "rx_allergen_group k =
     rx_char (\<lambda>c. c = 40) (rx_plus allergen_char (rx_char (\<lambda>c. c = 41) k))"

text \<open>\<open>ALLERGEN_TAIL_RE.match\<close>: the two groups.\<close>

definition ALLERGEN_TAIL_RE :: "(str \<times> str) cont" where
  "ALLERGEN_TAIL_RE =
     rx_group (rx_lazy_star (\<lambda>c. c \<noteq> 10)) (\<lambda>g1. rx_star is_space (
     rx_group rx_allergen_group (\<lambda>g2. rx_star is_space (rx_dollar (\<lambda>rest. Some (g1, g2))))))"

definition replace :: "nat \<Rightarrow> nat \<Rightarrow> str \<Rightarrow> str" where
  "replace old new s = map (\<lambda>c. if c = old then new else c) s"

definition digits_value :: "str \<Rightarrow> nat" where
  "digits_value ds = foldl (\<lambda>n c. 10 * n + digit_value c) 0 ds"

text \<open>
  \<open>float(s)\<close> for a decimal numeral with digits on both sides of the point, the form
  this program passes; every other text is \<open>ValueError\<close> in the model. The value is the
  exact decimal: a \<open>float\<close> is the nearest double, and since \<open>1.0\<close> is a double and
  rounding is monotone, the comparison of the double with \<open>1.0\<close> is the comparison of
  the decimal with 1.
\<close>

definition py_float :: "str \<Rightarrow> error + rat" where
  "py_float s =
     (let int_part = takeWhile is_digit s; rest = dropWhile is_digit s
      in case rest of
           [] \<Rightarrow> Inl ValueError
         | c # frac_part \<Rightarrow>
             if c = 46 \<and> int_part \<noteq> [] \<and> frac_part \<noteq> [] \<and> list_all is_digit frac_part
             then Inr (of_nat (digits_value int_part)
                       + of_nat (digits_value frac_part) / 10 ^ length frac_part)
             else Inl ValueError)"

text \<open>\<open>[line.strip() for line in cell_text.splitlines() if line.strip()]\<close>\<close>

definition cell_lines :: "str \<Rightarrow> str list" where
  "cell_lines cell_text =
     map strip (filter (\<lambda>line. strip line \<noteq> []) (splitlines cell_text))"

text \<open>
  The loop over \<open>reversed(list(enumerate(lines)))\<close>: the match and the index of the last
  line that holds a price; \<open>None\<close> stands for \<open>price_match, price_idx = None, -1\<close>.
\<close>

fun find_price :: "(nat \<times> str) list \<Rightarrow> ((str \<times> str \<times> str) \<times> nat) option" where
  "find_price [] = None"
| "find_price ((i, line) # r) =
     (case PRICE_LINE_RE_search line of
        Some price_match \<Rightarrow> Some (price_match, i)
      | None \<Rightarrow> find_price r)"

definition title_lines :: "str list \<Rightarrow> ((str \<times> str \<times> str) \<times> nat) option \<Rightarrow> str list" where
  "title_lines lines found =
     (case found of None \<Rightarrow> lines | Some (price_match, price_idx) \<Rightarrow> take price_idx lines)"

definition full_title :: "str list \<Rightarrow> str" where
  "full_title tls = strip (re_sub TITLE_SPACE_RE [32] (join [32] tls))"

definition cell_price :: "((str \<times> str \<times> str) \<times> nat) option \<Rightarrow> error + rat option" where
  "cell_price found =
     (case found of
        None \<Rightarrow> Inr None
      | Some (price_match, price_idx) \<Rightarrow>
          (case py_float (replace 44 46 (fst price_match)) of
             Inl e \<Rightarrow> Inl e
           | Inr x \<Rightarrow> Inr (Some x)))"

text \<open>The title and the allergen codes, from the joined title.\<close>

definition split_allergens :: "str \<Rightarrow> str \<times> str set" where
  "split_allergens ft =
     (case ALLERGEN_TAIL_RE ft of
        Some (g1, g2) \<Rightarrow>
          (strip g1,
           set (map strip (filter (\<lambda>code. strip code \<noteq> [])
                  (split_on 44 (strip_chars [40, 41] g2)))))
      | None \<Rightarrow> (ft, {}))"

definition parse_dish_from_cell :: "parser \<Rightarrow> str \<Rightarrow> error + dish option" where
  "parse_dish_from_cell self cell_text =
     (let lines = cell_lines cell_text in
      if lines = [] then Inr None
      else
        let found = find_price (rev (enumerate 0 lines));
            ft = full_title (title_lines lines found)
        in case cell_price found of
             Inl e \<Rightarrow> Inl e
           | Inr None \<Rightarrow> Inr None
           | Inr (Some p) \<Rightarrow>
               (case split_allergens ft of (t, codes) \<Rightarrow>
                  if length t < 5 then Inr None
                  else if filter_words (config self) \<noteq> {} \<and>
                          (\<exists>word \<in> filter_words (config self). str_contains word (lower t))
                  then Inr None
                  else if filter_allergen_numbers self \<noteq> {} \<and>
                          codes \<inter> filter_allergen_numbers self \<noteq> {}
                  then Inr None
                  else Inr (Some \<lparr>title = t, price = p,
                         category = (if p \<le> 1 then ''side'' else ''main''),
                         allergens = codes\<rparr>)))"

section \<open>The legend resolver\<close>

text \<open>
  \<open>[A-Z...]\<close>: the capital letters of \<open>ALLERGEN_MAP_RE\<close>. After \<open>A-Z\<close> the source file
  holds the code points U+221A U+00D1 U+221A U+00F1 U+221A U+00FA (the UTF-8 bytes of
  the three capital umlauts shown in Mac OS Roman), and these are the members of the
  class.
\<close>

definition legend_capital :: "nat \<Rightarrow> bool" where
  "legend_capital c \<longleftrightarrow> (65 \<le> c \<and> c \<le> 90) \<or> c \<in> set [8730, 209, 241, 250]"

definition lower_letter :: "nat \<Rightarrow> bool" where
  "lower_letter c \<longleftrightarrow> 97 \<le> c \<and> c \<le> 122"

text \<open>A lookahead \<open>(?=...)\<close> consumes nothing.\<close>

definition rx_lookahead :: "(unit cont \<Rightarrow> unit cont) \<Rightarrow> 'a cont \<Rightarrow> 'a cont" where
  "rx_lookahead a k s = (case a (\<lambda>rest. Some ()) s of None \<Rightarrow> None | Some u \<Rightarrow> k s)"

text \<open>\<open>\d+[a-z]?\<close>: a code.\<close>

definition rx_code :: "'a cont \<Rightarrow> 'a cont" where
  "rx_code k = rx_plus is_digit (rx_opt lower_letter k)"

text \<open>
  \<open>ALLERGEN_MAP_RE\<close> (with \<open>re.MULTILINE\<close>) at the start of the text: the two groups and
  the text after the match.
\<close>

definition ALLERGEN_MAP_RE :: "(str \<times> str \<times> str) cont" where
  "ALLERGEN_MAP_RE =
     rx_group rx_code (\<lambda>g1. rx_plus is_space (
     rx_group (\<lambda>k. rx_char legend_capital (rx_lazy_plus (\<lambda>c. \<not> is_digit c \<and> c \<noteq> 10) k)) (\<lambda>g2.
     rx_lookahead
       (rx_alt (\<lambda>k. rx_plus is_space (rx_code k)) (\<lambda>k. rx_star is_space (rx_dollar_multiline k)))
       (\<lambda>rest. Some (g1, g2, rest)))))"

text \<open>\<open>ALLERGEN_MAP_RE.finditer\<close>: the groups of the matches, from left to right.\<close>

fun finditer_from :: "nat \<Rightarrow> str \<Rightarrow> (str \<times> str) list" where
  "finditer_from n [] = []"
| "finditer_from (Suc n) (c # r) = finditer_from n r"
| "finditer_from 0 (c # r) =
     (case ALLERGEN_MAP_RE (c # r) of
        None \<Rightarrow> finditer_from 0 r
      | Some (g1, g2, rest) \<Rightarrow> (g1, g2) # finditer_from (length r - length rest) r)"

definition finditer :: "str \<Rightarrow> (str \<times> str) list" where
  "finditer s = finditer_from 0 s"

text \<open>\<open>re.sub(r"\s*\([^)]+\)|:$", "", name)\<close>: the pattern.\<close>

definition ANNOTATION_RE :: "str cont" where
  "ANNOTATION_RE =
     rx_alt
       (\<lambda>k. rx_star is_space (rx_char (\<lambda>c. c = 40) (rx_plus (\<lambda>c. c \<noteq> 41)
               (rx_char (\<lambda>c. c = 41) k))))
       (\<lambda>k. rx_char (\<lambda>c. c = 58) (rx_dollar k))
       Some"

definition name_clean :: "str \<Rightarrow> str" where
  "name_clean g2 = lower (strip (re_sub ANNOTATION_RE [] (strip g2)))"

text \<open>The body of the loop of \<open>_extract_allergen_mapping\<close>, for one match.\<close>

definition record_entry :: "(str, str) dict \<Rightarrow> str \<times> str \<Rightarrow> error + (str, str) dict" where
  "record_entry amap m =
     (case m of (number, g2) \<Rightarrow>
        if length (name_clean g2) < 3 then Inr amap
        else
          (case split_ws (name_clean g2) of
             [] \<Rightarrow> Inl IndexError
           | first_word # ws \<Rightarrow>
               if first_word \<noteq> name_clean g2
               then Inr (dict_set (dict_set amap (name_clean g2) number)
                           first_word number)
               else Inr (dict_set amap (name_clean g2) number)))"

definition extract_allergen_mapping :: "page list \<Rightarrow> error + (str, str) dict" where
  "extract_allergen_mapping ps =
     (if ps = [] then Inl IndexError
      else fold_err record_entry (finditer (extract_text (last ps))) [])"

definition resolve_filter_allergens :: "config \<Rightarrow> (str, str) dict \<Rightarrow> str set" where
  "resolve_filter_allergens cfg amap =
     (\<Union>name \<in> filter_allergen_names cfg.
        (case map_of amap name of None \<Rightarrow> {} | Some number \<Rightarrow> {number}))"

text \<open>\<open>MensaParser.__init__\<close>\<close>

definition MensaParser :: "page list \<Rightarrow> config \<Rightarrow> error + parser" where
  "MensaParser ps cfg =
     (case extract_allergen_mapping ps of
        Inl e \<Rightarrow> Inl e
      | Inr amap \<Rightarrow>
          Inr \<lparr>pages = ps, config = cfg, allergen_map = amap,
               filter_allergen_numbers = resolve_filter_allergens cfg amap\<rparr>)"

section \<open>The menu builder\<close>

text \<open>The body of the loop over the cells of one day.\<close>

definition add_dish ::
  "parser \<Rightarrow> string \<Rightarrow> (string, dish list) dict \<Rightarrow> cell \<Rightarrow> error + (string, dish list) dict" where
  "add_dish self day dishes_by_day c =
     (case parse_dish_from_cell self (text c) of
        Inl e \<Rightarrow> Inl e
      | Inr None \<Rightarrow> Inr dishes_by_day
      | Inr (Some d) \<Rightarrow>
          (case dict_get dishes_by_day day of
             Inl e \<Rightarrow> Inl e
           | Inr ds \<Rightarrow> Inr (dict_set dishes_by_day day (ds @ [d]))))"

definition add_day ::
  "parser \<Rightarrow> (string, dish list) dict \<Rightarrow> string \<times> cell list \<Rightarrow> error + (string, dish list) dict" where
  "add_day self dishes_by_day item =
     (case item of (day, cells) \<Rightarrow> fold_err (add_dish self day) cells dishes_by_day)"

definition get_all_dishes :: "parser \<Rightarrow> error + (string, dish list) dict" where
  "get_all_dishes self =
     (let dishes_by_day = map (\<lambda>day. (day, [])) WEEKDAYS_DE in
      if length (pages self) \<le> MENU_PAGE_INDEX then Inr dishes_by_day
      else
        (case extract_table (pages self ! MENU_PAGE_INDEX) of
           None \<Rightarrow> Inr dishes_by_day
         | Some table \<Rightarrow>
             if table = [] then Inr dishes_by_day
             else
               (case merge_table_cells table of
                  Inl e \<Rightarrow> Inl e
                | Inr merged_cells \<Rightarrow> fold_err (add_day self) merged_cells dishes_by_day)))"

section \<open>Predicates of the properties\<close>

text \<open>
  The merge branch as the specification words it: the flag of the merged cell is the
  old flag or the flag of the new text.
\<close>

definition merge_cell_or ::
  "row \<Rightarrow> (string, cell list) dict \<Rightarrow> string \<times> nat \<Rightarrow> error + (string, cell list) dict" where
  "merge_cell_or row merged_cells dc =
     (case dc of (day, col_idx) \<Rightarrow>
        if col_idx < length row then
          (case row ! col_idx of
             None \<Rightarrow> Inr merged_cells
           | Some cell_text \<Rightarrow>
               if cell_text = [] \<or> strip cell_text = [] then Inr merged_cells
               else
                 (case dict_get merged_cells day of
                    Inl e \<Rightarrow> Inl e
                  | Inr cells \<Rightarrow>
                      if cells \<noteq> [] \<and> \<not> has_price (last cells)
                      then Inr (dict_set merged_cells day
                             (butlast cells @
                                [\<lparr>text = text (last cells) @ [10] @ cell_text,
                                  has_price =
                                    (has_price (last cells) \<or> any_price_line cell_text)\<rparr>]))
                      else Inr (dict_set merged_cells day
                             (cells @
                                [\<lparr>text = cell_text,
                                  has_price = any_price_line cell_text\<rparr>]))))
        else Inl IndexError)"

text \<open>For every day, every cell but the last has its price: at most one cell is open.\<close>

definition one_open :: "(string, cell list) dict \<Rightarrow> bool" where
  "one_open d \<longleftrightarrow>
     (\<forall>day cells. map_of d day = Some cells \<longrightarrow> (\<forall>c \<in> set (butlast cells). has_price c))"

text \<open>
  From \<open>d\<close> to \<open>d'\<close> no cell is lost and a cell that has its price is left as it is.
\<close>

definition sticky :: "(string, cell list) dict \<Rightarrow> (string, cell list) dict \<Rightarrow> bool" where
  "sticky d d' \<longleftrightarrow>
     (\<forall>day cells. map_of d day = Some cells \<longrightarrow>
        (\<exists>cells'. map_of d' day = Some cells' \<and> length cells \<le> length cells' \<and>
           (\<forall>i < length cells. has_price (cells ! i) \<longrightarrow> cells' ! i = cells ! i)))"

text \<open>Two rows of the same length that agree at the five day columns.\<close>

definition same_day_columns :: "row \<Rightarrow> row \<Rightarrow> bool" where
  "same_day_columns r1 r2 \<longleftrightarrow>
     length r1 = length r2 \<and>
     (\<forall>col \<in> set DISH_COLUMN_INDICES. col < length r1 \<longrightarrow> r1 ! col = r2 ! col)"

text \<open>A row whose only text is \<open>x\<close>, in column \<open>col\<close>.\<close>

definition row_with :: "nat \<Rightarrow> str \<Rightarrow> row" where
  "row_with col x = (replicate 21 None)[col := Some x]"

text \<open>The text of one price: one or two digits, a comma, two digits.\<close>

definition price_shape :: "str \<Rightarrow> bool" where
  "price_shape g \<longleftrightarrow>
     (\<exists>a c d. g = [a, 44, c, d] \<and> is_digit a \<and> is_digit c \<and> is_digit d) \<or>
     (\<exists>a b c d. g = [a, b, 44, c, d] \<and> is_digit a \<and> is_digit b \<and> is_digit c \<and> is_digit d)"

text \<open>All seven days are keys, in their order, and the weekend has no dish.\<close>

definition weekend_empty :: "(string, dish list) dict \<Rightarrow> bool" where
  "weekend_empty d \<longleftrightarrow>
     map fst d = WEEKDAYS_DE \<and> map_of d ''Samstag'' = Some [] \<and> map_of d ''Sonntag'' = Some []"




text \<open>A parser without filters whose menu page holds the given table.\<close>

definition menu_parser :: "table \<Rightarrow> parser" where
  "menu_parser t =
     \<lparr>pages = [\<lparr>extract_text = [], extract_table = None\<rparr>,
               \<lparr>extract_text = [], extract_table = Some t\<rparr>],
      config = \<lparr>filter_words_raw = [], filter_allergens_raw = [], debug_mode = False\<rparr>,
      allergen_map = [], filter_allergen_numbers = {}\<rparr>"

text \<open>The price line of the scenarios, written with a given currency marker.\<close>

definition price_text :: "string \<Rightarrow> string \<Rightarrow> string \<Rightarrow> str \<Rightarrow> str" where
  "price_text a b c marker =
     ascii a @ [32] @ marker @ ascii '' | '' @ ascii b @ [32] @ marker @ ascii '' | ''
       @ ascii c @ [32] @ marker"

text \<open>The keys that one match of the legend pattern writes into the mapping.\<close>

definition entry_keys :: "str \<times> str \<Rightarrow> str set" where
  "entry_keys m =
     (case m of (number, g2) \<Rightarrow>
        if length (name_clean g2) < 3 then {}
        else {name_clean g2} \<union> set (take 1 (split_ws (name_clean g2))))"

text \<open>
  The allergen group as the specification words it: the title ends with a group in
  parentheses of tokens separated by commas, every token (trimmed) being digits and then
  at most one lowercase letter.
\<close>

definition code_token :: "str \<Rightarrow> bool" where
  "code_token tok \<longleftrightarrow>
     takeWhile (\<lambda>c. 48 \<le> c \<and> c \<le> 57) tok \<noteq> [] \<and>
     (case dropWhile (\<lambda>c. 48 \<le> c \<and> c \<le> 57) tok of
        [] \<Rightarrow> True
      | c # r \<Rightarrow> lower_letter c \<and> r = [])"

definition code_group_tail :: "str \<Rightarrow> bool" where
  "code_group_tail t \<longleftrightarrow>
     (case rev t of
        [] \<Rightarrow> False
      | c # r \<Rightarrow>
          c = 41 \<and> 40 \<in> set r \<and>
          list_all (\<lambda>tok. code_token (strip tok))
            (split_on 44 (rev (takeWhile (\<lambda>c. c \<noteq> 40) r))))"

text \<open>The codes of a group: the pieces between the commas, trimmed, the blank ones left out.\<close>

definition group_codes :: "str \<Rightarrow> str set" where
  "group_codes g = set (map strip (filter (\<lambda>code. strip code \<noteq> []) (split_on 44 g)))"

section \<open>The cell merger: invariants\<close>

lemma map_of_dict_set: "map_of (dict_set d k v) = (map_of d)(k \<mapsto> v)"
  by (induction d) (auto simp: fun_eq_iff)

lemma fold_err_append:
  "fold_err f (xs @ ys) s = (case fold_err f xs s of Inl e \<Rightarrow> Inl e | Inr s' \<Rightarrow> fold_err f ys s')"
  by (induction xs arbitrary: s) (auto split: sum.splits)

lemma fold_err_invariant:
  assumes "fold_err f xs s = Inr s'" and "P s"
    and "\<And>a x b. P a \<Longrightarrow> f a x = Inr b \<Longrightarrow> P b"
  shows "P s'"
  using assms(1,2)
proof (induction xs arbitrary: s)
  case Nil then show ?case by simp
next
  case (Cons x xs)
  then show ?case by (auto split: sum.splits intro: assms(3))
qed

lemma sticky_refl: "sticky d d"
  by (auto simp: sticky_def)

lemma sticky_trans: "sticky a b \<Longrightarrow> sticky b c \<Longrightarrow> sticky a c"
  unfolding sticky_def
proof (intro allI impI)
  fix day cells
  assume ab: "\<forall>day cells. map_of a day = Some cells \<longrightarrow>
        (\<exists>cells'. map_of b day = Some cells' \<and> length cells \<le> length cells' \<and>
           (\<forall>i < length cells. has_price (cells ! i) \<longrightarrow> cells' ! i = cells ! i))"
    and bc: "\<forall>day cells. map_of b day = Some cells \<longrightarrow>
        (\<exists>cells'. map_of c day = Some cells' \<and> length cells \<le> length cells' \<and>
           (\<forall>i < length cells. has_price (cells ! i) \<longrightarrow> cells' ! i = cells ! i))"
    and a: "map_of a day = Some cells"
  from ab a obtain cb where cb: "map_of b day = Some cb" "length cells \<le> length cb"
    "\<forall>i < length cells. has_price (cells ! i) \<longrightarrow> cb ! i = cells ! i" by blast
  from bc cb(1) obtain cc where cc: "map_of c day = Some cc" "length cb \<le> length cc"
    "\<forall>i < length cb. has_price (cb ! i) \<longrightarrow> cc ! i = cb ! i" by blast
  have "\<forall>i < length cells. has_price (cells ! i) \<longrightarrow> cc ! i = cells ! i"
  proof (intro allI impI)
    fix i assume i: "i < length cells" and h: "has_price (cells ! i)"
    then have e: "cb ! i = cells ! i" using cb(3) by blast
    then have "has_price (cb ! i)" using h by simp
    moreover have "i < length cb" using i cb(2) by simp
    ultimately have "cc ! i = cb ! i" using cc(3) by blast
    then show "cc ! i = cells ! i" using e by simp
  qed
  then show "\<exists>cells'. map_of c day = Some cells' \<and> length cells \<le> length cells' \<and>
           (\<forall>i < length cells. has_price (cells ! i) \<longrightarrow> cells' ! i = cells ! i)"
    using cc(1,2) cb(2) by auto
qed

lemma merge_cell_cases [consumes 1, case_names same merge append]:
  assumes "merge_cell row d dc = Inr d'"
  obtains "d' = d"
  | day cells x where "map_of d day = Some cells" "cells \<noteq> []" "\<not> has_price (last cells)"
      "d' = dict_set d day (butlast cells @ [x])"
  | day cells x where "map_of d day = Some cells" "cells = [] \<or> has_price (last cells)"
      "d' = dict_set d day (cells @ [x])"
proof -
  obtain day col where dc: "dc = (day, col)" by (cases dc)
  show thesis
  proof (cases "col < length row")
    case False
    then show thesis using assms by (simp add: merge_cell_def dc)
  next
    case inrange: True
    show thesis
    proof (cases "row ! col")
      case None
      then have "d' = d" using assms inrange by (simp add: merge_cell_def dc)
      then show thesis by (rule that(1))
    next
      case (Some ct)
      show thesis
      proof (cases "ct = [] \<or> strip ct = []")
        case True
        then have "d' = d" using assms inrange Some by (simp add: merge_cell_def dc)
        then show thesis by (rule that(1))
      next
        case nonblank: False
        show thesis
        proof (cases "map_of d day")
          case None
          then show thesis using assms inrange Some nonblank
            by (simp add: merge_cell_def dc dict_get_def)
        next
          case cells: (Some cells)
          show thesis
          proof (cases "cells \<noteq> [] \<and> \<not> has_price (last cells)")
            case True
            then have "d' = dict_set d day (butlast cells @
                [\<lparr>text = text (last cells) @ [10] @ ct, has_price = any_price_line ct\<rparr>])"
              using assms inrange Some nonblank cells
              by (simp add: merge_cell_def dc dict_get_def)
            then show thesis using that(2) cells True by blast
          next
            case False
            then have "d' = dict_set d day (cells @
                [\<lparr>text = ct, has_price = any_price_line ct\<rparr>])"
              using assms inrange Some nonblank cells
              by (auto simp: merge_cell_def dc dict_get_def)
            then show thesis using that(3) cells False by blast
          qed
        qed
      qed
    qed
  qed
qed

lemma all_price_when_closed:
  assumes "\<forall>c \<in> set (butlast cells). has_price c" and "cells = [] \<or> has_price (last cells)"
  shows "\<forall>c \<in> set cells. has_price c"
proof (cases "cells = []")
  case True then show ?thesis by simp
next
  case False
  have "set (butlast cells @ [last cells]) = insert (last cells) (set (butlast cells))"
    by (simp only: set_append list.set Un_insert_right Un_empty_right)
  then have "set cells = insert (last cells) (set (butlast cells))"
    by (simp only: append_butlast_last_id[OF False])
  then show ?thesis using assms False by simp
qed

lemma merge_cell_one_open:
  assumes "merge_cell row d dc = Inr d'" and "one_open d"
  shows "one_open d'"
  using assms(1)
proof (cases rule: merge_cell_cases)
  case same
  then show ?thesis using assms(2) by simp
next
  case (merge day cells x)
  then show ?thesis using assms(2)
    by (simp add: one_open_def map_of_dict_set)
next
  case (append day cells x)
  have "\<forall>c \<in> set (butlast cells). has_price c"
    using assms(2) append(1) unfolding one_open_def by blast
  then have "\<forall>c \<in> set cells. has_price c"
    using append(2) by (rule all_price_when_closed)
  then show ?thesis using assms(2) append(1,3)
    by (simp add: one_open_def map_of_dict_set)
qed

lemma merge_cell_sticky:
  assumes "merge_cell row d dc = Inr d'"
  shows "sticky d d'"
  using assms
proof (cases rule: merge_cell_cases)
  case same
  then show ?thesis by (simp add: sticky_refl)
next
  case (merge day cells x)
  have "\<forall>i < length cells. has_price (cells ! i) \<longrightarrow> (butlast cells @ [x]) ! i = cells ! i"
  proof (intro allI impI)
    fix i assume i: "i < length cells" and h: "has_price (cells ! i)"
    have "i \<noteq> length cells - 1" using h merge(2,3) by (auto simp: last_conv_nth)
    then have "i < length (butlast cells)" using i by simp
    then show "(butlast cells @ [x]) ! i = cells ! i" by (simp add: nth_append nth_butlast)
  qed
  then show ?thesis using merge(1,2,4)
    by (simp add: sticky_def map_of_dict_set)
next
  case (append day cells x)
  then show ?thesis
    by (simp add: sticky_def map_of_dict_set nth_append)
qed

lemma merge_cell_or_eq: "merge_cell_or row d dc = merge_cell row d dc"
  unfolding merge_cell_or_def merge_cell_def
  by (intro prod.case_cong if_cong option.case_cong sum.case_cong refl) simp

lemma merge_row_one_open:
  assumes "merge_row d row = Inr d'" and "one_open d"
  shows "one_open d'"
proof (cases "row = [] \<or> length row < Max (set DISH_COLUMN_INDICES) + 1")
  case True then show ?thesis using assms by (simp add: merge_row_def)
next
  case False
  then have "fold_err (merge_cell row) (zip (take 5 WEEKDAYS_DE) DISH_COLUMN_INDICES) d = Inr d'"
    using assms(1) by (simp add: merge_row_def)
  then show ?thesis
    by (rule fold_err_invariant[where P = one_open]) (auto intro: assms(2) merge_cell_one_open)
qed

lemma fold_err_related:
  assumes "fold_err f xs s = Inr s'"
    and "\<And>a. R a a" and "\<And>a b c. R a b \<Longrightarrow> R b c \<Longrightarrow> R a c"
    and "\<And>a x b. f a x = Inr b \<Longrightarrow> R a b"
  shows "R s s'"
  using assms(1)
proof (induction xs arbitrary: s)
  case Nil then show ?case by (simp add: assms(2))
next
  case (Cons x xs)
  then show ?case by (auto split: sum.splits intro: assms(3) assms(4))
qed

lemma merge_row_sticky:
  assumes "merge_row d row = Inr d'"
  shows "sticky d d'"
proof (cases "row = [] \<or> length row < Max (set DISH_COLUMN_INDICES) + 1")
  case True then show ?thesis using assms by (simp add: merge_row_def sticky_refl)
next
  case False
  then have "fold_err (merge_cell row) (zip (take 5 WEEKDAYS_DE) DISH_COLUMN_INDICES) d = Inr d'"
    using assms(1) by (simp add: merge_row_def)
  then show ?thesis
    by (rule fold_err_related[where R = sticky]) (auto intro: sticky_refl sticky_trans merge_cell_sticky)
qed

lemma dict_set_keys: "map_of d k = Some v' \<Longrightarrow> map fst (dict_set d k v) = map fst d"
proof (induction d)
  case Nil then show ?case by simp
next
  case (Cons a d)
  then show ?case by (cases a) (auto split: if_splits)
qed

lemma merge_cell_keys:
  assumes "merge_cell row d dc = Inr d'"
  shows "map fst d' = map fst d"
  using assms
proof (cases rule: merge_cell_cases)
  case same then show ?thesis by simp
next
  case (merge day cells x) then show ?thesis by (simp add: dict_set_keys)
next
  case (append day cells x) then show ?thesis by (simp add: dict_set_keys)
qed

lemma map_of_keys: "k \<in> set (map fst d) \<Longrightarrow> \<exists>v. map_of d k = Some v"
  by (induction d) auto

lemma merge_cell_total:
  assumes "col < length row" and "day \<in> set (map fst d)"
  shows "\<exists>d'. merge_cell row d (day, col) = Inr d'"
proof -
  obtain cells where "map_of d day = Some cells" using map_of_keys[OF assms(2)] by blast
  then show ?thesis using assms(1)
    by (simp add: merge_cell_def dict_get_def split: option.splits)
qed

lemma fold_err_total:
  assumes "P s"
    and "\<And>a x. P a \<Longrightarrow> x \<in> set xs \<Longrightarrow> \<exists>b. f a x = Inr b \<and> P b"
  shows "\<exists>s'. fold_err f xs s = Inr s' \<and> P s'"
  using assms
proof (induction xs arbitrary: s)
  case Nil then show ?case by simp
next
  case (Cons x xs)
  from Cons.prems(2)[OF Cons.prems(1), of x] obtain b where b: "f s x = Inr b" "P b" by auto
  have "\<exists>s'. fold_err f xs b = Inr s' \<and> P s'"
    by (rule Cons.IH[OF b(2)]) (use Cons.prems(2) in auto)
  then show ?case using b(1) by simp
qed

lemma Max_columns: "Max (set DISH_COLUMN_INDICES) = 20"
  by (simp add: DISH_COLUMN_INDICES_def)

lemma day_columns:
  "zip (take 5 WEEKDAYS_DE) DISH_COLUMN_INDICES =
     [(''Montag'', 4), (''Dienstag'', 8), (''Mittwoch'', 12), (''Donnerstag'', 16), (''Freitag'', 20)]"
  by (simp add: WEEKDAYS_DE_def DISH_COLUMN_INDICES_def)

lemma five_days:
  "take 5 WEEKDAYS_DE = [''Montag'', ''Dienstag'', ''Mittwoch'', ''Donnerstag'', ''Freitag'']"
  by (simp add: WEEKDAYS_DE_def)

lemma merge_row_total:
  assumes "map fst d = take 5 WEEKDAYS_DE"
  shows "\<exists>d'. merge_row d row = Inr d' \<and> map fst d' = take 5 WEEKDAYS_DE"
proof (cases "row = [] \<or> length row < Max (set DISH_COLUMN_INDICES) + 1")
  case True then show ?thesis using assms by (simp add: merge_row_def)
next
  case False
  then have len: "21 \<le> length row" by (simp add: Max_columns)
  have "\<exists>d'. fold_err (merge_cell row) (zip (take 5 WEEKDAYS_DE) DISH_COLUMN_INDICES) d = Inr d'
          \<and> map fst d' = take 5 WEEKDAYS_DE"
  proof (rule fold_err_total[where P = "\<lambda>d. map fst d = take 5 WEEKDAYS_DE"])
    show "map fst d = take 5 WEEKDAYS_DE" by (rule assms)
  next
    fix a :: "(string, cell list) dict" and x
    assume a: "map fst a = take 5 WEEKDAYS_DE"
      and x: "x \<in> set (zip (take 5 WEEKDAYS_DE) DISH_COLUMN_INDICES)"
    obtain day col where dc: "x = (day, col)" by (cases x)
    have col: "col < length row" using x len by (auto simp: dc day_columns)
    have "day \<in> set (take 5 WEEKDAYS_DE)" using x dc by (auto dest: set_zip_leftD)
    then have day: "day \<in> set (map fst a)" by (simp only: a)
    obtain b where b: "merge_cell row a (day, col) = Inr b"
      using merge_cell_total[OF col day] by blast
    then have "map fst b = take 5 WEEKDAYS_DE" using merge_cell_keys a by simp
    then show "\<exists>b. merge_cell row a x = Inr b \<and> map fst b = take 5 WEEKDAYS_DE"
      using b dc by simp
  qed
  then show ?thesis using False by (simp add: merge_row_def)
qed

lemma merge_table_cells_total:
  "\<exists>d. merge_table_cells table = Inr d \<and> map fst d = take 5 WEEKDAYS_DE"
  unfolding merge_table_cells_def
proof (rule fold_err_total[where P = "\<lambda>d. map fst d = take 5 WEEKDAYS_DE"])
  show "map fst (map (\<lambda>day. (day, [])) (take 5 WEEKDAYS_DE)) = take 5 WEEKDAYS_DE"
    by (simp add: comp_def)
next
  fix a :: "(string, cell list) dict" and x
  assume "map fst a = take 5 WEEKDAYS_DE"
  then show "\<exists>b. merge_row a x = Inr b \<and> map fst b = take 5 WEEKDAYS_DE"
    by (rule merge_row_total)
qed

lemma one_open_initial: "one_open (map (\<lambda>day. (day, [])) ds)"
  by (auto simp: one_open_def dest!: map_of_SomeD)

lemma merge_table_cells_one_open:
  assumes "merge_table_cells table = Inr d"
  shows "one_open d"
  using assms unfolding merge_table_cells_def
  by (rule fold_err_invariant[where P = one_open]) (auto intro: one_open_initial merge_row_one_open)

lemma merge_table_cells_sticky:
  assumes "n \<le> m"
    and "merge_table_cells (take n table) = Inr d"
    and "merge_table_cells (take m table) = Inr d'"
  shows "sticky d d'"
proof -
  have "take m table = take n table @ drop n (take m table)"
    using assms(1) by (metis append_take_drop_id min.absorb1 take_take)
  then have "merge_table_cells (take m table) =
      (case merge_table_cells (take n table) of Inl e \<Rightarrow> Inl e
       | Inr s \<Rightarrow> fold_err merge_row (drop n (take m table)) s)"
    unfolding merge_table_cells_def by (metis fold_err_append)
  then have "fold_err merge_row (drop n (take m table)) d = Inr d'"
    using assms(2,3) by simp
  then show ?thesis
    by (rule fold_err_related[where R = sticky])
       (auto intro: sticky_refl sticky_trans merge_row_sticky)
qed

text \<open>
  Claim C3. At every point of the row scan, for every day at most one cell is open: all
  cells of the day but the last have their price. A cell that has its price is never
  changed again, so its flag never goes back to false: after \<open>n\<close> rows and after
  \<open>m \<ge> n\<close> rows the cells with a price are the same, at the same places. The plain
  assignment of the flag in the merge branch gives what the disjunction with the old flag
  gives, in every state. (The scan never raises.)
\<close>

theorem sticky_has_price:
  assumes "n \<le> m"
  shows "\<exists>d d'. merge_table_cells (take n table) = Inr d \<and>
           merge_table_cells (take m table) = Inr d' \<and>
           one_open d \<and> sticky d d' \<and>
           (\<forall>row a dc. merge_cell_or row a dc = merge_cell row a dc)"
proof -
  obtain d where d: "merge_table_cells (take n table) = Inr d"
    using merge_table_cells_total by blast
  obtain d' where d': "merge_table_cells (take m table) = Inr d'"
    using merge_table_cells_total by blast
  have "one_open d" using d by (rule merge_table_cells_one_open)
  moreover have "sticky d d'" using assms d d' by (rule merge_table_cells_sticky)
  ultimately show ?thesis using d d' merge_cell_or_eq by blast
qed

theorem sticky_has_price_witness:
  "(1::nat) \<le> 2 \<and>
   (\<exists>d d'. merge_table_cells (take 1 [row_with 4 (ascii ''Suppe''), row_with 4 (ascii ''Nudeln'')]) = Inr d \<and>
           merge_table_cells (take 2 [row_with 4 (ascii ''Suppe''), row_with 4 (ascii ''Nudeln'')]) = Inr d' \<and>
           one_open d \<and> sticky d d' \<and>
           (\<forall>row a dc. merge_cell_or row a dc = merge_cell row a dc))"
  using sticky_has_price[of 1 2 "[row_with 4 (ascii ''Suppe''), row_with 4 (ascii ''Nudeln'')]"]
  by simp

section \<open>Regular expressions: what a match tells\<close>

lemma rx_char_Some:
  "rx_char P k s = Some x \<longleftrightarrow> (\<exists>c r. s = c # r \<and> P c \<and> k r = Some x)"
  by (cases s) (auto simp: rx_char_def)

lemma rx_opt_Some:
  "rx_opt P k s = Some x \<Longrightarrow> (\<exists>c r. s = c # r \<and> P c \<and> k r = Some x) \<or> k s = Some x"
  by (cases s) (auto simp: rx_opt_def split: if_splits option.splits)

lemma rx_star_result: "rx_star P k s = Some x \<Longrightarrow> \<exists>s'. k s' = Some x"
  by (induction s) (auto split: if_splits option.splits)

lemma rx_lit_result: "rx_lit l k s = Some x \<Longrightarrow> \<exists>s'. k s' = Some x"
  by (induction l arbitrary: s) (auto split: list.splits if_splits)

lemma rx_search_result: "rx_search m s = Some x \<Longrightarrow> \<exists>s'. m s' = Some x"
  by (induction s) (auto split: option.splits)

lemma rx_price_Some:
  assumes "rx_price k s = Some x"
  shows "\<exists>g rest. s = g @ rest \<and> price_shape g \<and> k rest = Some x"
proof -
  from assms obtain a r1 where a: "s = a # r1" "is_digit a"
    and 1: "rx_opt is_digit (rx_char (\<lambda>c. c = 44) (rx_char is_digit (rx_char is_digit k))) r1 = Some x"
    unfolding rx_price_def rx_char_Some by blast
  from rx_opt_Some[OF 1] show ?thesis
  proof
    assume "\<exists>b r2. r1 = b # r2 \<and> is_digit b \<and>
       rx_char (\<lambda>c. c = 44) (rx_char is_digit (rx_char is_digit k)) r2 = Some x"
    then obtain b c d rest where "r1 = b # 44 # c # d # rest" "is_digit b" "is_digit c" "is_digit d"
      "k rest = Some x" unfolding rx_char_Some by blast
    then have "s = [a, b, 44, c, d] @ rest \<and> price_shape [a, b, 44, c, d] \<and> k rest = Some x"
      using a by (simp add: price_shape_def)
    then show ?thesis by blast
  next
    assume "rx_char (\<lambda>c. c = 44) (rx_char is_digit (rx_char is_digit k)) r1 = Some x"
    then obtain c d rest where "r1 = 44 # c # d # rest" "is_digit c" "is_digit d"
      "k rest = Some x" unfolding rx_char_Some by blast
    then have "s = [a, 44, c, d] @ rest \<and> price_shape [a, 44, c, d] \<and> k rest = Some x"
      using a by (simp add: price_shape_def)
    then show ?thesis by blast
  qed
qed

lemma rx_group_price_Some:
  assumes "rx_group rx_price k s = Some x"
  shows "\<exists>g rest. price_shape g \<and> k g rest = Some x"
proof -
  from assms have "rx_price (\<lambda>rest. k (take (length s - length rest) s) rest) s = Some x"
    by (simp add: rx_group_def)
  from rx_price_Some[OF this] obtain g rest where "s = g @ rest" "price_shape g"
    "k (take (length s - length rest) s) rest = Some x"
    by auto
  then have "price_shape g \<and> k g rest = Some x" by simp
  then show ?thesis by (intro exI)
qed

lemma rx_price_sep_result:
  assumes "rx_price_sep k s = Some x"
  shows "\<exists>s'. k s' = Some x"
proof -
  from assms obtain s1 where "rx_lit EURO (rx_star is_space (rx_lit [124] (rx_star is_space k))) s1 = Some x"
    unfolding rx_price_sep_def using rx_star_result by fast
  from rx_lit_result[OF this] obtain s2 where "rx_star is_space (rx_lit [124] (rx_star is_space k)) s2 = Some x" ..
  from rx_star_result[OF this] obtain s3 where "rx_lit [124] (rx_star is_space k) s3 = Some x" ..
  from rx_lit_result[OF this] obtain s4 where "rx_star is_space k s4 = Some x" ..
  from rx_star_result[OF this] show ?thesis .
qed

lemma PRICE_LINE_RE_shape:
  assumes "PRICE_LINE_RE s = Some (g1, g2, g3)"
  shows "price_shape g1"
proof -
  from rx_group_price_Some[OF assms[unfolded PRICE_LINE_RE_def]]
  obtain a r1 where a: "price_shape a"
    and 1: "rx_price_sep (rx_group rx_price (\<lambda>g2. rx_price_sep (rx_group rx_price
              (\<lambda>g3. rx_star is_space (rx_lit EURO (\<lambda>rest. Some (a, g2, g3))))))) r1 = Some (g1, g2, g3)"
    by auto
  from rx_price_sep_result[OF 1] obtain r2 where
    "rx_group rx_price (\<lambda>g2. rx_price_sep (rx_group rx_price
              (\<lambda>g3. rx_star is_space (rx_lit EURO (\<lambda>rest. Some (a, g2, g3)))))) r2 = Some (g1, g2, g3)"
    ..
  from rx_group_price_Some[OF this] obtain b r3 where
    2: "rx_price_sep (rx_group rx_price
              (\<lambda>g3. rx_star is_space (rx_lit EURO (\<lambda>rest. Some (a, b, g3))))) r3 = Some (g1, g2, g3)"
    by auto
  from rx_price_sep_result[OF 2] obtain r4 where
    "rx_group rx_price (\<lambda>g3. rx_star is_space (rx_lit EURO (\<lambda>rest. Some (a, b, g3)))) r4
       = Some (g1, g2, g3)" ..
  from rx_group_price_Some[OF this] obtain c r5 where
    "rx_star is_space (rx_lit EURO (\<lambda>rest. Some (a, b, c))) r5 = Some (g1, g2, g3)"
    by auto
  from rx_star_result[OF this] obtain r6 where
    "rx_lit EURO (\<lambda>rest. Some (a, b, c)) r6 = Some (g1, g2, g3)" ..
  from rx_lit_result[OF this] have "Some (a, b, c) = Some (g1, g2, g3)" by simp
  then show ?thesis using a by simp
qed

lemma PRICE_LINE_RE_search_shape:
  "PRICE_LINE_RE_search line = Some (g1, g2, g3) \<Longrightarrow> price_shape g1"
proof -
  assume "PRICE_LINE_RE_search line = Some (g1, g2, g3)"
  then have "rx_search PRICE_LINE_RE line = Some (g1, g2, g3)"
    by (simp add: PRICE_LINE_RE_search_def)
  from rx_search_result[OF this] obtain s' where "PRICE_LINE_RE s' = Some (g1, g2, g3)" ..
  then show ?thesis by (rule PRICE_LINE_RE_shape)
qed

lemma not_digit_punct: "\<not> is_digit 44" "\<not> is_digit 46"
  by (simp_all add: is_digit_def)

lemma py_float_price:
  assumes "price_shape g"
  shows "\<exists>x. py_float (replace 44 46 g) = Inr x"
proof -
  have ne: "\<And>a. is_digit a \<Longrightarrow> a \<noteq> 44" using not_digit_punct by auto
  from assms show ?thesis unfolding price_shape_def
  proof (elim disjE exE conjE)
    fix a c d assume "g = [a, 44, c, d]" "is_digit a" "is_digit c" "is_digit d"
    then show ?thesis using ne not_digit_punct
      by (simp add: py_float_def replace_def)
  next
    fix a b c d assume "g = [a, b, 44, c, d]" "is_digit a" "is_digit b" "is_digit c" "is_digit d"
    then show ?thesis using ne not_digit_punct
      by (simp add: py_float_def replace_def)
  qed
qed

lemma find_price_Some:
  "find_price xs = Some (m, i) \<Longrightarrow> \<exists>line. (i, line) \<in> set xs \<and> PRICE_LINE_RE_search line = Some m"
  by (induction xs rule: find_price.induct) (auto split: option.splits)


lemma cell_price_total: "\<exists>p. cell_price (find_price xs) = Inr p"
proof (cases "find_price xs")
  case None then show ?thesis by (simp add: cell_price_def)
next
  case (Some f)
  obtain g1 g2 g3 i where f: "f = ((g1, g2, g3), i)" by (cases f) auto
  then have "price_shape g1" using Some find_price_Some PRICE_LINE_RE_search_shape by blast
  then obtain x where "py_float (replace 44 46 g1) = Inr x" using py_float_price by blast
  then show ?thesis using Some f by (simp add: cell_price_def)
qed

lemma parse_dish_from_cell_total: "\<exists>r. parse_dish_from_cell self cell_text = Inr r"
proof -
  obtain p where "cell_price (find_price (rev (enumerate 0 (cell_lines cell_text)))) = Inr p"
    using cell_price_total by blast
  then show ?thesis
    by (auto simp: parse_dish_from_cell_def Let_def split: option.splits prod.splits)
qed

section \<open>The menu builder: every day, no error\<close>

lemma weekend_empty_initial: "weekend_empty (map (\<lambda>day. (day, [])) WEEKDAYS_DE)"
  by (simp add: weekend_empty_def WEEKDAYS_DE_def)

lemma add_dish_total:
  assumes "weekend_empty d" and "day \<in> set (take 5 WEEKDAYS_DE)"
  shows "\<exists>d'. add_dish self day d c = Inr d' \<and> weekend_empty d'"
proof -
  obtain r where r: "parse_dish_from_cell self (text c) = Inr r"
    using parse_dish_from_cell_total by blast
  show ?thesis
  proof (cases r)
    case None
    then show ?thesis using r assms(1) by (simp add: add_dish_def)
  next
    case (Some x)
    have "day \<in> set (map fst d)" using assms by (auto simp: weekend_empty_def five_days WEEKDAYS_DE_def)
    then obtain ds where ds: "map_of d day = Some ds" using map_of_keys by fastforce
    have ne: "day \<noteq> ''Samstag''" "day \<noteq> ''Sonntag''" using assms(2) by (auto simp: five_days)
    have "weekend_empty (dict_set d day (ds @ [x]))"
      using assms(1) ds ne by (simp add: weekend_empty_def dict_set_keys map_of_dict_set)
    then show ?thesis using r Some ds by (simp add: add_dish_def dict_get_def)
  qed
qed

lemma add_day_total:
  assumes "weekend_empty d" and "day \<in> set (take 5 WEEKDAYS_DE)"
  shows "\<exists>d'. add_day self d (day, cells) = Inr d' \<and> weekend_empty d'"
  unfolding add_day_def prod.case
  by (rule fold_err_total[where P = weekend_empty]) (auto intro: assms add_dish_total)

text \<open>
  Claim C6. For every parser (every table, legend and filter configuration),
  \<open>get_all_dishes\<close> returns a mapping and raises nothing; its keys are the seven weekdays
  Monday to Sunday, and the lists of Saturday and Sunday are empty.
\<close>

theorem seven_days_weekend_empty:
  "\<exists>m. get_all_dishes self = Inr m \<and> map fst m = WEEKDAYS_DE \<and>
       map_of m ''Samstag'' = Some [] \<and> map_of m ''Sonntag'' = Some []"
proof -
  let ?init = "map (\<lambda>day. (day, [])) WEEKDAYS_DE :: (string, dish list) dict"
  have init: "weekend_empty ?init" by (rule weekend_empty_initial)
  have "\<exists>m. get_all_dishes self = Inr m \<and> weekend_empty m"
  proof (cases "length (pages self) \<le> MENU_PAGE_INDEX")
    case True then show ?thesis using init by (simp add: get_all_dishes_def)
  next
    case long: False
    show ?thesis
    proof (cases "extract_table (pages self ! MENU_PAGE_INDEX)")
      case None then show ?thesis using init long by (simp add: get_all_dishes_def)
    next
      case (Some table)
      show ?thesis
      proof (cases "table = []")
        case True then show ?thesis using init long Some by (simp add: get_all_dishes_def)
      next
        case False
        obtain merged where merged: "merge_table_cells table = Inr merged"
          "map fst merged = take 5 WEEKDAYS_DE" using merge_table_cells_total by blast
        have "\<exists>m. fold_err (add_day self) merged ?init = Inr m \<and> weekend_empty m"
        proof (rule fold_err_total[where P = weekend_empty])
          show "weekend_empty ?init" by (rule init)
        next
          fix a :: "(string, dish list) dict" and x
          assume a: "weekend_empty a" and x: "x \<in> set merged"
          obtain day cells where dc: "x = (day, cells)" by (cases x)
          have "day \<in> set (map fst merged)" using x dc by force
          then have "day \<in> set (take 5 WEEKDAYS_DE)" by (simp only: merged(2))
          then show "\<exists>b. add_day self a x = Inr b \<and> weekend_empty b"
            unfolding dc using a add_day_total by blast
        qed
        then show ?thesis using long Some False merged(1) by (simp add: get_all_dishes_def)
      qed
    qed
  qed
  then show ?thesis by (auto simp: weekend_empty_def)
qed

text \<open>
  Claim C5. When the document has no second page, or the second page has no table
  (\<open>extract_table\<close> gives \<open>None\<close> or an empty table), \<open>get_all_dishes\<close> returns the
  mapping of the seven weekdays to empty lists, and raises nothing.
\<close>

theorem no_menu_no_dishes:
  assumes "length (pages self) \<le> MENU_PAGE_INDEX \<or>
           extract_table (pages self ! MENU_PAGE_INDEX) = None \<or>
           extract_table (pages self ! MENU_PAGE_INDEX) = Some []"
  shows "get_all_dishes self =
           Inr [(''Montag'', []), (''Dienstag'', []), (''Mittwoch'', []), (''Donnerstag'', []),
                (''Freitag'', []), (''Samstag'', []), (''Sonntag'', [])]"
  using assms by (auto simp: get_all_dishes_def WEEKDAYS_DE_def Let_def)

section \<open>The columns that are not read\<close>

lemma merge_cell_same_columns:
  assumes "same_day_columns r1 r2" and "col \<in> set DISH_COLUMN_INDICES"
  shows "merge_cell r1 d (day, col) = merge_cell r2 d (day, col)"
proof (cases "col < length r1")
  case True
  then have "r1 ! col = r2 ! col" "col < length r2" using assms by (auto simp: same_day_columns_def)
  then show ?thesis using True by (simp add: merge_cell_def)
next
  case False
  then have "\<not> col < length r2" using assms by (auto simp: same_day_columns_def)
  then show ?thesis using False by (simp add: merge_cell_def)
qed

lemma fold_err_cong_set:
  assumes "\<And>x s. x \<in> set xs \<Longrightarrow> f s x = g s x"
  shows "fold_err f xs s = fold_err g xs s"
  using assms by (induction xs arbitrary: s) (auto split: sum.splits)

lemma merge_row_same_columns:
  assumes "same_day_columns r1 r2"
  shows "merge_row d r1 = merge_row d r2"
proof -
  have len: "length r1 = length r2" using assms by (simp add: same_day_columns_def)
  then have e: "(r1 = []) = (r2 = [])" by auto
  have "fold_err (merge_cell r1) (zip (take 5 WEEKDAYS_DE) DISH_COLUMN_INDICES) d =
        fold_err (merge_cell r2) (zip (take 5 WEEKDAYS_DE) DISH_COLUMN_INDICES) d"
  proof (rule fold_err_cong_set)
    fix x :: "string \<times> nat" and s :: "(string, cell list) dict"
    assume x: "x \<in> set (zip (take 5 WEEKDAYS_DE) DISH_COLUMN_INDICES)"
    obtain day col where dc: "x = (day, col)" by (cases x)
    have "col \<in> set DISH_COLUMN_INDICES" using x dc by (auto dest: set_zip_rightD)
    then show "merge_cell r1 s x = merge_cell r2 s x"
      unfolding dc using assms by (rule merge_cell_same_columns[rotated])
  qed
  then show ?thesis using len e by (simp add: merge_row_def)
qed

lemma fold_merge_row_same_columns:
  assumes "list_all2 same_day_columns t1 t2"
  shows "fold_err merge_row t1 d = fold_err merge_row t2 d"
  using assms
proof (induction arbitrary: d rule: list_all2_induct)
  case Nil then show ?case by simp
next
  case (Cons r1 t1 r2 t2)
  then show ?case by (simp add: merge_row_same_columns split: sum.splits)
qed

lemma parse_dish_ignores_pages:
  "parse_dish_from_cell (self\<lparr>pages := ps\<rparr>) c = parse_dish_from_cell self c"
  by (simp add: parse_dish_from_cell_def Let_def split: sum.splits option.splits prod.splits)

lemma add_dish_ignores_pages: "add_dish (self\<lparr>pages := ps\<rparr>) = add_dish self"
  by (intro ext) (simp add: add_dish_def parse_dish_ignores_pages)

lemma add_day_ignores_pages: "add_day (self\<lparr>pages := ps\<rparr>) = add_day self"
  by (intro ext) (simp add: add_day_def add_dish_ignores_pages)

text \<open>
  Claim C10. Two tables with the same number of rows, whose rows have pairwise the same
  length and the same cells in the columns 4, 8, 12, 16 and 20, give the same merged
  cells, and two parsers that differ in nothing but such tables give the same dishes:
  no other column has an influence.
\<close>

theorem unused_columns_no_influence:
  assumes "list_all2 same_day_columns t1 t2"
  shows "merge_table_cells t1 = merge_table_cells t2 \<and>
         get_all_dishes (self\<lparr>pages := [cover, menu\<lparr>extract_table := Some t1\<rparr>] @ others\<rparr>) =
         get_all_dishes (self\<lparr>pages := [cover, menu\<lparr>extract_table := Some t2\<rparr>] @ others\<rparr>)"
proof -
  have m: "merge_table_cells t1 = merge_table_cells t2"
    unfolding merge_table_cells_def using assms by (rule fold_merge_row_same_columns)
  have e: "(t1 = []) = (t2 = [])" using assms by (auto dest: list_all2_lengthD)
  show ?thesis using m e
    by (simp add: get_all_dishes_def MENU_PAGE_INDEX_def add_day_ignores_pages Let_def
          cong: sum.case_cong if_cong)
qed

theorem no_menu_no_dishes_witness:
  "(length (pages \<lparr>pages = [\<lparr>extract_text = ascii ''28 Soja'', extract_table = None\<rparr>],
       config = \<lparr>filter_words_raw = [], filter_allergens_raw = [], debug_mode = False\<rparr>,
       allergen_map = [(ascii ''soja'', ascii ''28'')], filter_allergen_numbers = {}\<rparr>)
      \<le> MENU_PAGE_INDEX \<or> False \<or> False) \<and>
   get_all_dishes \<lparr>pages = [\<lparr>extract_text = ascii ''28 Soja'', extract_table = None\<rparr>],
       config = \<lparr>filter_words_raw = [], filter_allergens_raw = [], debug_mode = False\<rparr>,
       allergen_map = [(ascii ''soja'', ascii ''28'')], filter_allergen_numbers = {}\<rparr> =
     Inr [(''Montag'', []), (''Dienstag'', []), (''Mittwoch'', []), (''Donnerstag'', []),
          (''Freitag'', []), (''Samstag'', []), (''Sonntag'', [])]"
  using no_menu_no_dishes[of "\<lparr>pages = [\<lparr>extract_text = ascii ''28 Soja'', extract_table = None\<rparr>],
       config = \<lparr>filter_words_raw = [], filter_allergens_raw = [], debug_mode = False\<rparr>,
       allergen_map = [(ascii ''soja'', ascii ''28'')], filter_allergen_numbers = {}\<rparr>"]
  by (simp add: MENU_PAGE_INDEX_def)

theorem unused_columns_no_influence_witness:
  "list_all2 same_day_columns
     [row_with 4 (ascii ''Suppe'')] [(row_with 4 (ascii ''Suppe''))[0 := Some (ascii ''Woche 12'')]] \<and>
   merge_table_cells [row_with 4 (ascii ''Suppe'')] =
   merge_table_cells [(row_with 4 (ascii ''Suppe''))[0 := Some (ascii ''Woche 12'')]] \<and>
   get_all_dishes (\<lparr>pages = [], config = \<lparr>filter_words_raw = [], filter_allergens_raw = [],
         debug_mode = False\<rparr>, allergen_map = [], filter_allergen_numbers = {}\<rparr>
       \<lparr>pages := [\<lparr>extract_text = [], extract_table = None\<rparr>,
          \<lparr>extract_text = [], extract_table = None\<rparr>
            \<lparr>extract_table := Some [row_with 4 (ascii ''Suppe'')]\<rparr>] @ []\<rparr>) =
   get_all_dishes (\<lparr>pages = [], config = \<lparr>filter_words_raw = [], filter_allergens_raw = [],
         debug_mode = False\<rparr>, allergen_map = [], filter_allergen_numbers = {}\<rparr>
       \<lparr>pages := [\<lparr>extract_text = [], extract_table = None\<rparr>,
          \<lparr>extract_text = [], extract_table = None\<rparr>
            \<lparr>extract_table := Some [(row_with 4 (ascii ''Suppe''))[0 := Some (ascii ''Woche 12'')]]\<rparr>] @ []\<rparr>)"
proof -
  have h: "list_all2 same_day_columns
     [row_with 4 (ascii ''Suppe'')] [(row_with 4 (ascii ''Suppe''))[0 := Some (ascii ''Woche 12'')]]"
    by (simp add: same_day_columns_def row_with_def DISH_COLUMN_INDICES_def)
  show ?thesis
    using h unused_columns_no_influence[OF h,
      where self = "\<lparr>pages = [], config = \<lparr>filter_words_raw = [], filter_allergens_raw = [],
         debug_mode = False\<rparr>, allergen_map = [], filter_allergen_numbers = {}\<rparr>"
        and cover = "\<lparr>extract_text = [], extract_table = None\<rparr>"
        and menu = "\<lparr>extract_text = [], extract_table = None\<rparr>" and others = "[]"]
    by blast
qed

section \<open>The merge scenario\<close>

lemma strip_Nil_iff: "strip s = [] \<longleftrightarrow> (\<forall>c \<in> set s. is_space c)"
proof -
  have "strip s = [] \<longleftrightarrow> (\<forall>c \<in> set (dropWhile is_space s). is_space c)"
    by (simp add: strip_def dropWhile_eq_Nil_conv)
  also have "\<dots> \<longleftrightarrow> dropWhile is_space s = []"
  proof
    assume a: "\<forall>c \<in> set (dropWhile is_space s). is_space c"
    show "dropWhile is_space s = []"
    proof (rule ccontr)
      assume ne: "dropWhile is_space s \<noteq> []"
      then have "\<not> is_space (hd (dropWhile is_space s))" by (rule hd_dropWhile)
      moreover have "hd (dropWhile is_space s) \<in> set (dropWhile is_space s)" using ne by simp
      ultimately show False using a by blast
    qed
  next
    assume "dropWhile is_space s = []"
    then show "\<forall>c \<in> set (dropWhile is_space s). is_space c"
      by (simp del: dropWhile_eq_Nil_conv)
  qed
  also have "\<dots> \<longleftrightarrow> (\<forall>c \<in> set s. is_space c)" by (simp add: dropWhile_eq_Nil_conv)
  finally show ?thesis .
qed








lemmas text_eval = ascii_def EURO_def is_space_def is_digit_def is_linebreak_def strip_def
  strip_chars_def splitlines_def split_ws_def lower_def lower_cp_def replace_def
lemmas rx_eval = rx_char_def rx_plus_def rx_opt_def rx_lazy_plus_def rx_group_def rx_dollar_def
  rx_dollar_multiline_def rx_alt_def rx_price_def rx_price_sep_def PRICE_LINE_RE_def
  PRICE_LINE_RE_search_def





section \<open>The dish extractor: rejection and category\<close>

lemmas parse_eval = cell_lines_def title_lines_def full_title_def re_sub_def TITLE_SPACE_RE_def
  cell_price_def py_float_def digits_value_def digit_value_def split_allergens_def
  ALLERGEN_TAIL_RE_def rx_allergen_group_def allergen_char_def filter_words_def
  parse_dish_from_cell_def Let_def price_text_def






text \<open>
  Claim C9. The category of every dish that the extractor returns is \<open>side\<close> exactly when
  its price is at most 1.00, and \<open>main\<close> otherwise; so a price of 1.00 gives \<open>side\<close> and
  a price of 1.01 gives \<open>main\<close>.
\<close>

theorem category_boundary:
  assumes "parse_dish_from_cell self c = Inr (Some d)"
  shows "(category d = ''side'' \<longleftrightarrow> price d \<le> 1) \<and>
         (category d = ''main'' \<longleftrightarrow> 1 < price d) \<and>
         (price d = 1 \<longrightarrow> category d = ''side'') \<and>
         (price d = 101 / 100 \<longrightarrow> category d = ''main'')"
  using assms
  by (auto simp: parse_dish_from_cell_def Let_def
      split: if_splits sum.splits option.splits prod.splits)

theorem category_boundary_witness:
  "parse_dish_from_cell (menu_parser [])
       (ascii ''Kaisersemmel'' @ [10] @ price_text ''1,00'' ''1,10'' ''1,20'' EURO) =
     Inr (Some \<lparr>title = ascii ''Kaisersemmel'', price = 1, category = ''side'', allergens = {}\<rparr>) \<and>
   parse_dish_from_cell (menu_parser [])
       (ascii ''Kaisersemmel'' @ [10] @ price_text ''1,01'' ''1,10'' ''1,20'' EURO) =
     Inr (Some \<lparr>title = ascii ''Kaisersemmel'', price = 101 / 100, category = ''main'',
                allergens = {}\<rparr>) \<and>
   (category \<lparr>title = ascii ''Kaisersemmel'', price = 1, category = ''side'', allergens = {}\<rparr> = ''side''
      \<longleftrightarrow> price \<lparr>title = ascii ''Kaisersemmel'', price = 1, category = ''side'', allergens = {}\<rparr> \<le> 1)"
proof -
  have a: "parse_dish_from_cell (menu_parser [])
       (ascii ''Kaisersemmel'' @ [10] @ price_text ''1,00'' ''1,10'' ''1,20'' EURO) =
     Inr (Some \<lparr>title = ascii ''Kaisersemmel'', price = 1, category = ''side'', allergens = {}\<rparr>)"
    by (simp add: parse_eval text_eval rx_eval menu_parser_def)
  have b: "parse_dish_from_cell (menu_parser [])
       (ascii ''Kaisersemmel'' @ [10] @ price_text ''1,01'' ''1,10'' ''1,20'' EURO) =
     Inr (Some \<lparr>title = ascii ''Kaisersemmel'', price = 101 / 100, category = ''main'',
                allergens = {}\<rparr>)"
    by (simp add: parse_eval text_eval rx_eval menu_parser_def)
  show ?thesis using a b category_boundary[OF a] by blast
qed

section \<open>The scenario of the hyphen\<close>












section \<open>The legend resolver: what the mapping holds\<close>

lemmas legend_eval = finditer_def ALLERGEN_MAP_RE_def rx_code_def rx_lookahead_def
  legend_capital_def lower_letter_def name_clean_def ANNOTATION_RE_def re_sub_def
  record_entry_def extract_allergen_mapping_def

lemma split_ws_from_Nil: "split_ws_from cur s = [] \<longleftrightarrow> cur = [] \<and> (\<forall>c \<in> set s. is_space c)"
  by (induction cur s rule: split_ws_from.induct) auto

lemma strip_has_text:
  assumes "strip s \<noteq> []"
  shows "\<exists>c \<in> set (strip s). \<not> is_space c"
proof -
  let ?d = "dropWhile is_space (rev (dropWhile is_space s))"
  have ne: "?d \<noteq> []" using assms by (simp add: strip_def)
  then have "\<not> is_space (hd ?d)" by (rule hd_dropWhile)
  moreover have "hd ?d \<in> set (rev ?d)" using ne by simp
  ultimately show ?thesis unfolding strip_def by blast
qed

lemma lower_cp_not_space: "\<not> is_space c \<Longrightarrow> \<not> is_space (lower_cp c)"
  by (auto simp: lower_cp_def is_space_def)

lemma name_clean_first_word:
  assumes "3 \<le> length (name_clean g2)"
  shows "\<exists>w ws. split_ws (name_clean g2) = w # ws"
proof -
  let ?s = "strip (re_sub ANNOTATION_RE [] (strip g2))"
  have "?s \<noteq> []" using assms by (auto simp: name_clean_def lower_def)
  from strip_has_text[OF this] obtain c where "c \<in> set ?s" "\<not> is_space c" by blast
  then have "lower_cp c \<in> set (name_clean g2)" "\<not> is_space (lower_cp c)"
    by (auto simp: name_clean_def lower_def lower_cp_not_space)
  then have "split_ws (name_clean g2) \<noteq> []"
    unfolding split_ws_def split_ws_from_Nil by blast
  then show ?thesis by (cases "split_ws (name_clean g2)") auto
qed

lemma record_entry_total: "\<exists>amap'. record_entry amap m = Inr amap'"
proof (cases m)
  case (Pair number g2)
  show ?thesis
  proof (cases "length (name_clean g2) < 3")
    case True then show ?thesis using Pair by (simp add: record_entry_def)
  next
    case False
    then obtain w ws where "split_ws (name_clean g2) = w # ws"
      using name_clean_first_word[of g2] by auto
    then show ?thesis using Pair False by (simp add: record_entry_def)
  qed
qed

lemma record_entry_other_keys:
  assumes "record_entry amap m = Inr amap'" and "k \<notin> entry_keys m"
  shows "map_of amap' k = map_of amap k"
  using assms
  by (cases m)
     (auto simp: record_entry_def entry_keys_def map_of_dict_set split: if_splits list.splits)

lemma record_entry_first_word:
  assumes "record_entry amap (number, g2) = Inr amap'"
    and "3 \<le> length (name_clean g2)"
    and "split_ws (name_clean g2) = w # ws" and "w \<noteq> name_clean g2"
  shows "map_of amap' w = Some number \<and> map_of amap' (name_clean g2) = Some number"
  using assms by (auto simp: record_entry_def map_of_dict_set)

lemma fold_record_total: "\<exists>amap'. fold_err record_entry ms amap = Inr amap'"
  using fold_err_total[where P = "\<lambda>a. True" and f = record_entry and xs = ms and s = amap]
    record_entry_total by auto

lemma fold_record_other_keys:
  assumes "fold_err record_entry ms amap = Inr amap'" and "\<forall>m \<in> set ms. k \<notin> entry_keys m"
  shows "map_of amap' k = map_of amap k"
  using assms
proof (induction ms arbitrary: amap)
  case Nil then show ?case by simp
next
  case (Cons m ms)
  obtain a1 where a1: "record_entry amap m = Inr a1" using record_entry_total by blast
  then have "fold_err record_entry ms a1 = Inr amap'" using Cons.prems(1) by simp
  then have "map_of amap' k = map_of a1 k" using Cons.IH Cons.prems(2) by simp
  also have "map_of a1 k = map_of amap k"
    using record_entry_other_keys[OF a1] Cons.prems(2) by simp
  finally show ?case .
qed

lemma first_word_kept:
  assumes "3 \<le> length (name_clean g2)"
    and "split_ws (name_clean g2) = w # ws" and "w \<noteq> name_clean g2"
    and "\<forall>m \<in> set later. w \<notin> entry_keys m"
  shows "\<exists>amap'. fold_err record_entry (earlier @ (number, g2) # later) amap = Inr amap' \<and>
           map_of amap' w = Some number"
proof -
  obtain a1 where a1: "fold_err record_entry earlier amap = Inr a1"
    using fold_record_total by blast
  obtain a2 where a2: "record_entry a1 (number, g2) = Inr a2" using record_entry_total by blast
  obtain a3 where a3: "fold_err record_entry later a2 = Inr a3" using fold_record_total by blast
  have "map_of a2 w = Some number" using record_entry_first_word[OF a2 assms(1,2,3)] by simp
  then have "map_of a3 w = Some number" using fold_record_other_keys[OF a3 assms(4)] by simp
  moreover have "fold_err record_entry (earlier @ (number, g2) # later) amap = Inr a3"
    using a1 a2 a3 by (simp add: fold_err_append)
  ultimately show ?thesis by blast
qed

lemma split_on_absent: "sep \<notin> set s \<Longrightarrow> split_on sep s = [s]"
  by (induction s) auto

lemma filter_names_single:
  assumes "44 \<notin> set raw" and "lower (strip raw) = name" and "name \<noteq> []"
  shows "filter_allergen_names (cfg\<lparr>filter_allergens_raw := raw\<rparr>) = {name}"
proof -
  have "strip raw \<noteq> []" using assms(2,3) by (auto simp: lower_def)
  then show ?thesis using assms(1,2)
    by (simp add: filter_allergen_names_def split_on_absent)
qed

lemma soja_legend:
  "extract_allergen_mapping [\<lparr>extract_text = ascii ''28 Soja 29 Sellerie'', extract_table = t\<rparr>] =
     Inr [(ascii ''soja'', ascii ''28''), (ascii ''sellerie'', ascii ''29'')]"
  by (simp add: legend_eval text_eval rx_eval)

lemma soja_bohne_legend:
  "finditer (ascii ''1 Soja Bohne 2 Soja'') =
      [(ascii ''1'', ascii ''Soja Bohne''), (ascii ''2'', ascii ''Soja'')]"
  "name_clean (ascii ''Soja Bohne'') = ascii ''soja bohne''"
  "split_ws (ascii ''soja bohne'') = [ascii ''soja'', ascii ''bohne'']"
  "extract_allergen_mapping [\<lparr>extract_text = ascii ''1 Soja Bohne 2 Soja'', extract_table = None\<rparr>] =
     Inr [(ascii ''soja bohne'', ascii ''1''), (ascii ''soja'', ascii ''2'')]"
  by (simp_all add: legend_eval text_eval rx_eval)

text \<open>
  Claim C7, as amended. For the footnote text \<open>28 Soja 29 Sellerie\<close> the mapping is
  \<open>soja\<close> to \<open>28\<close> and \<open>sellerie\<close> to \<open>29\<close>. A filter name that is \<open>soja\<close> once it is
  trimmed and lowercased (so \<open>Soja\<close> in any letter case, with whitespace around it)
  resolves to the code \<open>28\<close>: the filter codes of the parser are exactly \<open>28\<close>. For every
  legend entry whose normalized name has at least 3 characters and several words, the
  first word maps to the code of the entry in the final mapping, unless a later entry
  writes that word as its own name or first word (the last write wins).
\<close>

theorem legend_resolution:
  "extract_allergen_mapping
       [\<lparr>extract_text = ascii ''28 Soja 29 Sellerie'', extract_table = t\<rparr>] =
     Inr [(ascii ''soja'', ascii ''28''), (ascii ''sellerie'', ascii ''29'')] \<and>
   (44 \<notin> set raw \<longrightarrow> lower (strip raw) = ascii ''soja'' \<longrightarrow>
      MensaParser [\<lparr>extract_text = ascii ''28 Soja 29 Sellerie'', extract_table = t\<rparr>]
          (cfg\<lparr>filter_allergens_raw := raw\<rparr>) =
        Inr \<lparr>pages = [\<lparr>extract_text = ascii ''28 Soja 29 Sellerie'', extract_table = t\<rparr>],
             config = cfg\<lparr>filter_allergens_raw := raw\<rparr>,
             allergen_map = [(ascii ''soja'', ascii ''28''), (ascii ''sellerie'', ascii ''29'')],
             filter_allergen_numbers = {ascii ''28''}\<rparr>) \<and>
   (ps \<noteq> [] \<longrightarrow> finditer (extract_text (last ps)) = earlier @ (number, g2) # later \<longrightarrow>
      3 \<le> length (name_clean g2) \<longrightarrow> split_ws (name_clean g2) = w # ws \<longrightarrow>
      w \<noteq> name_clean g2 \<longrightarrow> (\<forall>m \<in> set later. w \<notin> entry_keys m) \<longrightarrow>
      (\<exists>amap. extract_allergen_mapping ps = Inr amap \<and> map_of amap w = Some number))"
proof (intro conjI impI)
  show "extract_allergen_mapping
       [\<lparr>extract_text = ascii ''28 Soja 29 Sellerie'', extract_table = t\<rparr>] =
     Inr [(ascii ''soja'', ascii ''28''), (ascii ''sellerie'', ascii ''29'')]"
    by (rule soja_legend)
next
  assume raw: "44 \<notin> set raw" "lower (strip raw) = ascii ''soja''"
  have "ascii ''soja'' \<noteq> []" by (simp add: ascii_def)
  then have "filter_allergen_names (cfg\<lparr>filter_allergens_raw := raw\<rparr>) = {ascii ''soja''}"
    using raw by (rule filter_names_single[rotated 2])
  then have "resolve_filter_allergens (cfg\<lparr>filter_allergens_raw := raw\<rparr>)
        [(ascii ''soja'', ascii ''28''), (ascii ''sellerie'', ascii ''29'')] = {ascii ''28''}"
    by (simp add: resolve_filter_allergens_def)
  then show "MensaParser [\<lparr>extract_text = ascii ''28 Soja 29 Sellerie'', extract_table = t\<rparr>]
          (cfg\<lparr>filter_allergens_raw := raw\<rparr>) =
        Inr \<lparr>pages = [\<lparr>extract_text = ascii ''28 Soja 29 Sellerie'', extract_table = t\<rparr>],
             config = cfg\<lparr>filter_allergens_raw := raw\<rparr>,
             allergen_map = [(ascii ''soja'', ascii ''28''), (ascii ''sellerie'', ascii ''29'')],
             filter_allergen_numbers = {ascii ''28''}\<rparr>"
    by (simp add: MensaParser_def soja_legend)
next
  assume "ps \<noteq> []" and f: "finditer (extract_text (last ps)) = earlier @ (number, g2) # later"
    and "3 \<le> length (name_clean g2)" "split_ws (name_clean g2) = w # ws"
    "w \<noteq> name_clean g2" "\<forall>m \<in> set later. w \<notin> entry_keys m"
  then show "\<exists>amap. extract_allergen_mapping ps = Inr amap \<and> map_of amap w = Some number"
    using first_word_kept[of g2 w ws later earlier number "[]"]
    by (simp add: extract_allergen_mapping_def)
qed

lemma two_entry_legend:
  "finditer (ascii ''5 Soja Bohne 29 Sellerie'') =
      [] @ (ascii ''5'', ascii ''Soja Bohne'') # [(ascii ''29'', ascii ''Sellerie'')]"
  "entry_keys (ascii ''29'', ascii ''Sellerie'') = {ascii ''sellerie''}"
  "lower (strip (ascii ''  SoJa '')) = ascii ''soja''"
  by (simp_all add: legend_eval entry_keys_def text_eval rx_eval)

theorem legend_resolution_witness:
  "44 \<notin> set (ascii ''  SoJa '') \<and> lower (strip (ascii ''  SoJa '')) = ascii ''soja'' \<and>
   MensaParser [\<lparr>extract_text = ascii ''28 Soja 29 Sellerie'', extract_table = None\<rparr>]
       (\<lparr>filter_words_raw = [], filter_allergens_raw = [], debug_mode = False\<rparr>
          \<lparr>filter_allergens_raw := ascii ''  SoJa ''\<rparr>) =
     Inr \<lparr>pages = [\<lparr>extract_text = ascii ''28 Soja 29 Sellerie'', extract_table = None\<rparr>],
          config = \<lparr>filter_words_raw = [], filter_allergens_raw = [], debug_mode = False\<rparr>
                     \<lparr>filter_allergens_raw := ascii ''  SoJa ''\<rparr>,
          allergen_map = [(ascii ''soja'', ascii ''28''), (ascii ''sellerie'', ascii ''29'')],
          filter_allergen_numbers = {ascii ''28''}\<rparr> \<and>
   finditer (ascii ''5 Soja Bohne 29 Sellerie'') =
      [] @ (ascii ''5'', ascii ''Soja Bohne'') # [(ascii ''29'', ascii ''Sellerie'')] \<and>
   split_ws (name_clean (ascii ''Soja Bohne'')) = [ascii ''soja'', ascii ''bohne''] \<and>
   (\<exists>amap. extract_allergen_mapping
              [\<lparr>extract_text = ascii ''5 Soja Bohne 29 Sellerie'', extract_table = None\<rparr>] = Inr amap \<and>
           map_of amap (ascii ''soja'') = Some (ascii ''5''))"
proof -
  have c: "44 \<notin> set (ascii ''  SoJa '')" by (simp add: ascii_def)
  have n: "name_clean (ascii ''Soja Bohne'') = ascii ''soja bohne''"
    "split_ws (name_clean (ascii ''Soja Bohne'')) = ascii ''soja'' # [ascii ''bohne'']"
    by (simp_all add: soja_bohne_legend)
  have l: "3 \<le> length (name_clean (ascii ''Soja Bohne''))"
    "ascii ''soja'' \<noteq> name_clean (ascii ''Soja Bohne'')"
    "\<forall>m \<in> set [(ascii ''29'', ascii ''Sellerie'')]. ascii ''soja'' \<notin> entry_keys m"
    by (simp_all add: n two_entry_legend(2)) (simp_all add: ascii_def)
  show ?thesis
    using c n(2) l two_entry_legend(1,3)
      legend_resolution[where t = None and raw = "ascii ''  SoJa ''"
        and cfg = "\<lparr>filter_words_raw = [], filter_allergens_raw = [], debug_mode = False\<rparr>"
        and ps = "[\<lparr>extract_text = ascii ''5 Soja Bohne 29 Sellerie'', extract_table = None\<rparr>]"
        and earlier = "[]" and number = "ascii ''5''" and ?g2.0 = "ascii ''Soja Bohne''"
        and later = "[(ascii ''29'', ascii ''Sellerie'')]" and w = "ascii ''soja''"
        and ws = "[ascii ''bohne'']"]
    by simp
qed

text \<open>
  Claim C7 as it is stated fails: in the legend \<open>1 Soja Bohne 2 Soja\<close> the name
  \<open>soja bohne\<close> has the code \<open>1\<close>, and its first word maps to \<open>2\<close>.
\<close>

theorem legend_resolution_counterexample:
  "finditer (ascii ''1 Soja Bohne 2 Soja'') =
      [(ascii ''1'', ascii ''Soja Bohne''), (ascii ''2'', ascii ''Soja'')] \<and>
   name_clean (ascii ''Soja Bohne'') = ascii ''soja bohne'' \<and>
   split_ws (ascii ''soja bohne'') = [ascii ''soja'', ascii ''bohne''] \<and>
   extract_allergen_mapping
       [\<lparr>extract_text = ascii ''1 Soja Bohne 2 Soja'', extract_table = None\<rparr>] =
     Inr [(ascii ''soja bohne'', ascii ''1''), (ascii ''soja'', ascii ''2'')] \<and>
   map_of [(ascii ''soja bohne'', ascii ''1''), (ascii ''soja'', ascii ''2'')] (ascii ''soja'')
     \<noteq> Some (ascii ''1'')"
  using soja_bohne_legend by (simp add: ascii_def)

section \<open>The allergen group at the end of a title\<close>

lemma rx_star_Some:
  "rx_star P k s = Some x \<Longrightarrow> \<exists>a b. s = a @ b \<and> list_all P a \<and> k b = Some x"
proof (induction s)
  case Nil
  then have "[] = [] @ [] \<and> list_all P [] \<and> k [] = Some x" by simp
  then show ?case by (intro exI)
next
  case (Cons c r)
  show ?case
  proof (cases "P c \<and> rx_star P k r \<noteq> None")
    case True
    then have "rx_star P k r = Some x" using Cons.prems by auto
    from Cons.IH[OF this] obtain a b where "r = a @ b" "list_all P a" "k b = Some x" by blast
    then have "c # r = (c # a) @ b \<and> list_all P (c # a) \<and> k b = Some x" using True by simp
    then show ?thesis by (intro exI)
  next
    case False
    then have "k (c # r) = Some x" using Cons.prems by (auto split: if_splits option.splits)
    then have "c # r = [] @ (c # r) \<and> list_all P [] \<and> k (c # r) = Some x" by simp
    then show ?thesis by (intro exI)
  qed
qed

lemma rx_lazy_star_Some:
  "rx_lazy_star P k s = Some x \<Longrightarrow> \<exists>a b. s = a @ b \<and> list_all P a \<and> k b = Some x"
proof (induction s)
  case Nil
  then have "[] = [] @ [] \<and> list_all P [] \<and> k [] = Some x" by simp
  then show ?case by (intro exI)
next
  case (Cons c r)
  show ?case
  proof (cases "k (c # r)")
    case (Some y)
    then have "c # r = [] @ (c # r) \<and> list_all P [] \<and> k (c # r) = Some x"
      using Cons.prems by simp
    then show ?thesis by (intro exI)
  next
    case None
    then have pc: "P c" and "rx_lazy_star P k r = Some x"
      using Cons.prems by (auto split: if_splits)
    from Cons.IH[OF this(2)] obtain a b where "r = a @ b" "list_all P a" "k b = Some x" by blast
    then have "c # r = (c # a) @ b \<and> list_all P (c # a) \<and> k b = Some x" using pc by simp
    then show ?thesis by (intro exI)
  qed
qed

text \<open>A greedy repetition that is followed by a character outside its class takes all.\<close>

lemma rx_star_greedy:
  assumes "list_all P ws" and "rest = [] \<or> \<not> P (hd rest)" and "k rest = Some x"
  shows "rx_star P k (ws @ rest) = Some x"
  using assms(1)
proof (induction ws)
  case Nil
  then show ?case using assms(2,3) by (cases rest) auto
next
  case (Cons w ws)
  then show ?case by simp
qed

text \<open>A lazy repetition stops at the first place where the rest of the pattern matches.\<close>

lemma rx_lazy_star_first:
  assumes "list_all P a" and "\<forall>n < length a. k (drop n (a @ b)) = None"
  shows "rx_lazy_star P k (a @ b) = (case b of [] \<Rightarrow> k [] | c # r \<Rightarrow>
            (case k b of Some x \<Rightarrow> Some x | None \<Rightarrow> rx_lazy_star P k b))"
  using assms
proof (induction a)
  case Nil
  then show ?case by (cases b) (auto split: option.splits)
next
  case (Cons c a)
  have "k ((c # a) @ b) = None" using Cons.prems(2) by force
  moreover have "\<forall>n < length a. k (drop n (a @ b)) = None"
  proof (intro allI impI)
    fix n assume "n < length a"
    then have "Suc n < length (c # a)" by simp
    then have "k (drop (Suc n) ((c # a) @ b)) = None" using Cons.prems(2) by blast
    then show "k (drop n (a @ b)) = None" by simp
  qed
  ultimately show ?case using Cons.IH Cons.prems(1) by simp
qed

lemma rx_lazy_star_first_Some:
  assumes "list_all P a" and "\<forall>n < length a. k (drop n (a @ b)) = None" and "k b = Some x"
  shows "rx_lazy_star P k (a @ b) = Some x"
  using rx_lazy_star_first[OF assms(1,2)] assms(3) by (cases b) auto

lemma rx_allergen_group_Some:
  assumes "rx_allergen_group k s = Some x"
  shows "\<exists>g rest. s = [40] @ g @ [41] @ rest \<and> g \<noteq> [] \<and> list_all allergen_char g \<and> k rest = Some x"
proof -
  from assms obtain r1 where r1: "s = 40 # r1"
    "rx_char allergen_char (rx_star allergen_char (rx_char (\<lambda>c. c = 41) k)) r1 = Some x"
    unfolding rx_allergen_group_def rx_plus_def rx_char_Some by auto
  then obtain c r2 where r2: "r1 = c # r2" "allergen_char c"
    "rx_star allergen_char (rx_char (\<lambda>c. c = 41) k) r2 = Some x"
    unfolding rx_char_Some by auto
  from rx_star_Some[OF r2(3)] obtain a b where ab: "r2 = a @ b" "list_all allergen_char a"
    "rx_char (\<lambda>c. c = 41) k b = Some x" by blast
  then obtain rest where rest: "b = 41 # rest" "k rest = Some x" unfolding rx_char_Some by auto
  have "s = [40] @ (c # a) @ [41] @ rest \<and> c # a \<noteq> [] \<and> list_all allergen_char (c # a) \<and>
        k rest = Some x"
    using r1(1) r2(1,2) ab(1,2) rest by simp
  then show ?thesis by (intro exI)
qed

lemma rx_allergen_group_match:
  assumes "g \<noteq> []" and "list_all allergen_char g" and "k rest = Some x"
  shows "rx_allergen_group k ([40] @ g @ [41] @ rest) = Some x"
proof -
  obtain c a where g: "g = c # a" using assms(1) by (cases g) auto
  have "\<not> allergen_char 41" by (simp add: allergen_char_def is_space_def)
  then have "rx_star allergen_char (rx_char (\<lambda>c. c = 41) k) (a @ (41 # rest)) = Some x"
    using assms(2,3) g by (intro rx_star_greedy) (auto simp: rx_char_def)
  then show ?thesis using g assms(2)
    by (simp add: rx_allergen_group_def rx_plus_def rx_char_def)
qed

text \<open>The text between the last opening parenthesis and the end is one.\<close>

lemma last_paren_unique:
  assumes "(x::str) @ [40] @ g @ [41] = y @ [40] @ h @ [41]" and "40 \<notin> set g" and "40 \<notin> set h"
  shows "x = y \<and> g = h"
proof -
  have "rev g @ 40 # rev x = rev h @ 40 # rev y"
    using arg_cong[OF assms(1), of rev] by simp
  moreover have "takeWhile (\<lambda>c. c \<noteq> 40) (rev g @ 40 # rev x) = rev g"
    using assms(2) by (auto simp: takeWhile_tail)
  moreover have "takeWhile (\<lambda>c. c \<noteq> 40) (rev h @ 40 # rev y) = rev h"
    using assms(3) by (auto simp: takeWhile_tail)
  ultimately have "rev g = rev h" by simp
  then have gh: "g = h" by simp
  then show ?thesis using assms(1) by simp
qed

lemma allergen_char_not_paren: "list_all allergen_char g \<Longrightarrow> 40 \<notin> set g \<and> 41 \<notin> set g"
  by (auto simp: list_all_iff allergen_char_def is_space_def)

text \<open>Trimming at the right end, and how it goes with trimming at both ends.\<close>

lemma rstrip_append:
  "rev (dropWhile P (rev (u @ v))) =
     (if \<forall>c \<in> set v. P c then rev (dropWhile P (rev u)) else u @ rev (dropWhile P (rev v)))"
  by (simp add: dropWhile_append)

lemma rstrip_split:
  "\<exists>ws. p = rev (dropWhile P (rev p)) @ ws \<and> list_all P ws"
proof -
  have "rev p = takeWhile P (rev p) @ dropWhile P (rev p)" by simp
  then have "p = rev (dropWhile P (rev p)) @ rev (takeWhile P (rev p))"
    by (metis rev_append rev_rev_ident)
  moreover have "list_all P (rev (takeWhile P (rev p)))"
    by (auto simp: list_all_iff dest: set_takeWhileD)
  ultimately show ?thesis by blast
qed

lemma rstrip_last:
  "rev (dropWhile P (rev p)) = [] \<or> \<not> P (last (rev (dropWhile P (rev p))))"
proof (cases "dropWhile P (rev p) = []")
  case True then show ?thesis by simp
next
  case False
  then have "\<not> P (hd (dropWhile P (rev p)))" by (rule hd_dropWhile)
  then show ?thesis using False by (simp add: last_rev)
qed

lemma strip_rstrip: "strip (rev (dropWhile is_space (rev p))) = strip p"
proof (cases "\<forall>c \<in> set p. is_space c")
  case True
  then have "strip p = []" by (simp add: strip_Nil_iff)
  moreover have "\<forall>c \<in> set (rev (dropWhile is_space (rev p))). is_space c"
    using True by (auto dest: set_dropWhileD)
  then have "strip (rev (dropWhile is_space (rev p))) = []" by (simp only: strip_Nil_iff)
  ultimately show ?thesis by simp
next
  case False
  let ?l = "takeWhile is_space p" and ?d = "dropWhile is_space p"
  have d: "?d \<noteq> []" using False by (simp add: dropWhile_eq_Nil_conv)
  then have hd: "\<not> is_space (hd ?d)" by (rule hd_dropWhile)
  obtain x rest where xr: "?d = x # rest" using d by (cases ?d) auto
  have x: "\<not> is_space x" using hd xr by simp
  have p: "p = ?l @ x # rest" using xr by (metis takeWhile_dropWhile_id)
  have l: "\<forall>c \<in> set ?l. is_space c" by (auto dest: set_takeWhileD)
  have nall: "\<not> (\<forall>c \<in> set (x # rest). is_space c)" using x by simp
  have r1: "rev (dropWhile is_space (rev (x # rest))) =
        x # (if \<forall>c \<in> set rest. is_space c then [] else rev (dropWhile is_space (rev rest)))"
    using rstrip_append[of is_space "[x]" rest] x by simp
  have "rev (dropWhile is_space (rev p)) = ?l @ rev (dropWhile is_space (rev (x # rest)))"
    using rstrip_append[of is_space ?l "x # rest"] nall p by metis
  then have "dropWhile is_space (rev (dropWhile is_space (rev p))) =
        rev (dropWhile is_space (rev (x # rest)))"
    using l x r1 by (simp add: dropWhile_append)
  then have "strip (rev (dropWhile is_space (rev p))) =
        rev (dropWhile is_space (rev (rev (dropWhile is_space (rev (x # rest))))))"
    by (simp only: strip_def)
  also have "\<dots> = rev (dropWhile is_space (rev (x # rest)))"
    by (simp only: rev_rev_ident dropWhile_idem)
  also have "\<dots> = strip p" using xr by (simp add: strip_def)
  finally show ?thesis .
qed

lemma strip_last: "strip s = [] \<or> \<not> is_space (last (strip s))"
  unfolding strip_def using rstrip_last[of is_space "dropWhile is_space s"] by simp

lemma set_strip: "set (strip s) \<subseteq> set s"
proof
  fix x assume "x \<in> set (strip s)"
  then have "x \<in> set (dropWhile is_space (rev (dropWhile is_space s)))" by (simp add: strip_def)
  then have "x \<in> set (rev (dropWhile is_space s))" by (rule set_dropWhileD)
  then have "x \<in> set (dropWhile is_space s)" by simp
  then show "x \<in> set s" by (rule set_dropWhileD)
qed

text \<open>The joined title: no whitespace but the space, and trimmed.\<close>

lemma rx_star_Some_total: "rx_star P Some s \<noteq> None"
  by (induction s) (auto split: option.splits)

lemma TITLE_SPACE_RE_space: "is_space c \<Longrightarrow> TITLE_SPACE_RE (c # r) \<noteq> None"
  using rx_star_Some_total[of is_space r]
  by (auto simp: TITLE_SPACE_RE_def rx_alt_def rx_plus_def rx_char_def split: option.splits)

lemma rx_star_Some_shorter: "rx_star P Some s = Some rest \<Longrightarrow> length rest \<le> length s"
  using rx_star_Some[of P Some s rest] by auto

lemma rx_plus_Some_shorter: "rx_plus P Some s = Some rest \<Longrightarrow> length rest < length s"
proof -
  assume "rx_plus P Some s = Some rest"
  then obtain c r where "s = c # r" "rx_star P Some r = Some rest"
    unfolding rx_plus_def rx_char_Some by auto
  then show ?thesis using rx_star_Some_shorter[of P r rest] by simp
qed

lemma TITLE_SPACE_RE_shorter: "TITLE_SPACE_RE s = Some rest \<Longrightarrow> length rest < length s"
proof -
  assume a: "TITLE_SPACE_RE s = Some rest"
  show ?thesis
  proof (cases "rx_char (\<lambda>c. c = 45) (rx_plus is_space Some) s")
    case None
    then have "rx_plus is_space Some s = Some rest"
      using a by (simp add: TITLE_SPACE_RE_def rx_alt_def)
    then show ?thesis by (rule rx_plus_Some_shorter)
  next
    case (Some y)
    then have "rx_char (\<lambda>c. c = 45) (rx_plus is_space Some) s = Some rest"
      using a by (simp add: TITLE_SPACE_RE_def rx_alt_def)
    then obtain r where "s = 45 # r" "rx_plus is_space Some r = Some rest"
      unfolding rx_char_Some by auto
    then show ?thesis using rx_plus_Some_shorter[of is_space r rest] by simp
  qed
qed

lemma re_sub_title_chars:
  "c \<in> set (re_sub_from m repl n s) \<Longrightarrow> m = TITLE_SPACE_RE \<Longrightarrow> repl = [32] \<Longrightarrow>
     c = 32 \<or> \<not> is_space c"
proof (induction m repl n s rule: re_sub_from.induct)
  case (1 m repl n)
  then show ?case by simp
next
  case (2 m repl n d r)
  then show ?case by simp
next
  case (3 m repl d r)
  show ?case
  proof (cases "m (d # r)")
    case None
    then have "\<not> is_space d" using TITLE_SPACE_RE_space[of d r] "3.prems"(2) by auto
    then show ?thesis using None 3 by auto
  next
    case (Some rest)
    then have "length rest < length (d # r)" using TITLE_SPACE_RE_shorter "3.prems"(2) by blast
    then show ?thesis using Some 3 by auto
  qed
qed

lemma full_title_shape:
  "10 \<notin> set (full_title tls) \<and> (full_title tls = [] \<or> \<not> is_space (last (full_title tls)))"
proof -
  have "\<forall>c \<in> set (re_sub TITLE_SPACE_RE [32] (join [32] tls)). c = 32 \<or> \<not> is_space c"
    using re_sub_title_chars by (auto simp: re_sub_def)
  moreover have "is_space 10" by (simp add: is_space_def)
  ultimately have "10 \<notin> set (re_sub TITLE_SPACE_RE [32] (join [32] tls))" by force
  then have "10 \<notin> set (full_title tls)" using set_strip by (auto simp: full_title_def)
  then show ?thesis using strip_last by (auto simp: full_title_def)
qed

text \<open>The pattern after its first group: whitespace, the group, whitespace, the end.\<close>

lemma tail_rest_Some:
  assumes "rx_star is_space (rx_group rx_allergen_group
             (\<lambda>g2. rx_star is_space (rx_dollar (\<lambda>rest. Some (g1, g2))))) s = Some y"
  shows "\<exists>ws g ws2. s = ws @ [40] @ g @ [41] @ ws2 \<and> list_all is_space ws \<and> g \<noteq> [] \<and>
           list_all allergen_char g \<and> list_all is_space ws2 \<and> y = (g1, [40] @ g @ [41])"
proof -
  from rx_star_Some[OF assms] obtain ws b where b: "s = ws @ b" "list_all is_space ws"
    "rx_group rx_allergen_group
       (\<lambda>g2. rx_star is_space (rx_dollar (\<lambda>rest. Some (g1, g2)))) b = Some y"
    by auto
  from b(3) have "rx_allergen_group
       (\<lambda>rest. rx_star is_space (rx_dollar (\<lambda>r. Some (g1, take (length b - length rest) b))) rest)
       b = Some y"
    by (simp add: rx_group_def)
  from rx_allergen_group_Some[OF this] obtain g rest where g: "b = [40] @ g @ [41] @ rest"
    "g \<noteq> []" "list_all allergen_char g"
    "rx_star is_space (rx_dollar (\<lambda>r. Some (g1, take (length b - length rest) b))) rest = Some y"
    by auto
  from rx_star_Some[OF g(4)] obtain ws2 b3 where w: "rest = ws2 @ b3" "list_all is_space ws2"
    "rx_dollar (\<lambda>r. Some (g1, take (length b - length rest) b)) b3 = Some y"
    by auto
  from w(3) have b3: "b3 = [] \<or> b3 = [10]" and y: "y = (g1, take (length b - length rest) b)"
    by (auto simp: rx_dollar_def split: if_splits)
  have "list_all is_space b3" using b3 by (auto simp: is_space_def)
  then have sp: "list_all is_space (ws2 @ b3)" using w(2) by simp
  have "take (length b - length rest) b = [40] @ g @ [41]" using g(1) by simp
  then have "s = ws @ [40] @ g @ [41] @ (ws2 @ b3) \<and> list_all is_space ws \<and> g \<noteq> [] \<and>
           list_all allergen_char g \<and> list_all is_space (ws2 @ b3) \<and> y = (g1, [40] @ g @ [41])"
    using b(1,2) g(1,2,3) w(1) sp y by simp
  then show ?thesis by (intro exI)
qed

lemma tail_rest_match:
  assumes "list_all is_space ws" and "g \<noteq> []" and "list_all allergen_char g"
  shows "rx_star is_space (rx_group rx_allergen_group
             (\<lambda>g2. rx_star is_space (rx_dollar (\<lambda>rest. Some (g1, g2)))))
           (ws @ [40] @ g @ [41]) = Some (g1, [40] @ g @ [41])"
proof (rule rx_star_greedy[OF assms(1)])
  show "[40] @ g @ [41] = [] \<or> \<not> is_space (hd ([40] @ g @ [41]))"
    by (simp add: is_space_def)
next
  have "rx_allergen_group
       (\<lambda>rest. rx_star is_space
          (rx_dollar (\<lambda>r. Some (g1, take (length ([40] @ g @ [41]) - length rest) ([40] @ g @ [41]))))
          rest)
       ([40] @ g @ [41] @ []) = Some (g1, [40] @ g @ [41])"
    by (rule rx_allergen_group_match[OF assms(2,3)]) (simp add: rx_dollar_def)
  then show "rx_group rx_allergen_group
          (\<lambda>g2. rx_star is_space (rx_dollar (\<lambda>rest. Some (g1, g2)))) ([40] @ g @ [41])
        = Some (g1, [40] @ g @ [41])"
    by (simp add: rx_group_def)
qed

lemma all_space_no_text:
  assumes "list_all is_space (u @ v)" and "u \<noteq> []" and "\<not> is_space (last u)"
  shows False
proof -
  have "last u \<in> set u" using assms(2) by simp
  then show False using assms(1,3) by (auto simp: list_all_iff)
qed

lemma ALLERGEN_TAIL_RE_match:
  assumes "g \<noteq> []" and "list_all allergen_char g" and "10 \<notin> set p"
  shows "ALLERGEN_TAIL_RE (p @ [40] @ g @ [41]) =
           Some (rev (dropWhile is_space (rev p)), [40] @ g @ [41])"
proof -
  define a where "a = rev (dropWhile is_space (rev p))"
  let ?G = "[40] @ g @ [41]"
  from rstrip_split[of p is_space] obtain ws where ws: "p = a @ ws" "list_all is_space ws"
    unfolding a_def by blast
  have alast: "a = [] \<or> \<not> is_space (last a)" unfolding a_def by (rule rstrip_last)
  have t: "p @ ?G = a @ (ws @ ?G)" using ws(1) by simp
  let ?k = "\<lambda>rest. rx_star is_space (rx_group rx_allergen_group
             (\<lambda>g2. rx_star is_space (rx_dollar
                (\<lambda>r. Some (take (length (a @ (ws @ ?G)) - length rest) (a @ (ws @ ?G)), g2))))) rest"
  have nog: "40 \<notin> set g" "41 \<notin> set g" using allergen_char_not_paren[OF assms(2)] by simp_all
  have nonl: "list_all (\<lambda>c. c \<noteq> 10) a"
    using assms(3) ws(1) by (auto simp: list_all_iff)
  have none: "\<forall>n < length a. ?k (drop n (a @ (ws @ ?G))) = None"
  proof (intro allI impI)
    fix n assume n: "n < length a"
    show "?k (drop n (a @ (ws @ ?G))) = None"
    proof (rule ccontr)
      assume "?k (drop n (a @ (ws @ ?G))) \<noteq> None"
      then obtain y where "?k (drop n (a @ (ws @ ?G))) = Some y" by auto
      from tail_rest_Some[OF this] obtain ws1 h ws2 where
        h: "drop n (a @ (ws @ ?G)) = ws1 @ [40] @ h @ [41] @ ws2" "list_all is_space ws1"
           "h \<noteq> []" "list_all allergen_char h" "list_all is_space ws2"
        by auto
      have d: "drop n (a @ (ws @ ?G)) = (drop n a @ ws) @ [40] @ g @ [41]" using n by simp
      have e: "ws1 @ [40] @ h @ [41] @ ws2 = (drop n a @ ws) @ [40] @ g @ [41]"
        by (rule trans[OF h(1)[symmetric] d])
      have "ws2 = []"
      proof (rule ccontr)
        assume ne: "ws2 \<noteq> []"
        then have "last (ws1 @ [40] @ h @ [41] @ ws2) = last ws2" by simp
        moreover have "last ((drop n a @ ws) @ [40] @ g @ [41]) = 41" by simp
        ultimately have "last ws2 = 41" by (simp only: e)
        moreover have "is_space (last ws2)" using ne h(5) by (auto simp: list_all_iff)
        ultimately show False by (simp add: is_space_def)
      qed
      then have "(drop n a @ ws) @ [40] @ g @ [41] = ws1 @ [40] @ h @ [41]" using e by simp
      moreover have "40 \<notin> set h" using allergen_char_not_paren[OF h(4)] by simp
      ultimately have "drop n a @ ws = ws1" using last_paren_unique nog(1) by blast
      then have sp: "list_all is_space (drop n a @ ws)" using h(2) by simp
      have ne: "drop n a \<noteq> []" using n by simp
      have "a \<noteq> []" using n by auto
      then have "\<not> is_space (last a)" using alast by simp
      then have "\<not> is_space (last (drop n a))" using n by simp
      then show False using all_space_no_text[OF sp ne] by simp
    qed
  qed
  have "take (length (a @ ws @ ?G) - length (ws @ ?G)) (a @ ws @ ?G) = a" by simp
  then have here: "?k (ws @ ?G) = Some (a, ?G)"
    using tail_rest_match[OF ws(2) assms(1,2), of a] by simp
  have "rx_lazy_star (\<lambda>c. c \<noteq> 10) ?k (a @ (ws @ ?G)) = Some (a, ?G)"
    using nonl none here by (rule rx_lazy_star_first_Some)
  then have "ALLERGEN_TAIL_RE (a @ (ws @ ?G)) = Some (a, ?G)"
    by (simp add: ALLERGEN_TAIL_RE_def rx_group_def)
  then have "ALLERGEN_TAIL_RE (p @ ?G) = Some (a, ?G)" by (simp only: t)
  then show ?thesis unfolding a_def .
qed

lemma ALLERGEN_TAIL_RE_Some:
  assumes "ALLERGEN_TAIL_RE t = Some y" and "t = [] \<or> \<not> is_space (last t)"
  shows "\<exists>p g. t = p @ [40] @ g @ [41] \<and> g \<noteq> [] \<and> list_all allergen_char g"
proof -
  from assms(1) have "rx_lazy_star (\<lambda>c. c \<noteq> 10)
     (\<lambda>rest. rx_star is_space (rx_group rx_allergen_group
             (\<lambda>g2. rx_star is_space (rx_dollar
                (\<lambda>r. Some (take (length t - length rest) t, g2))))) rest) t = Some y"
    by (simp add: ALLERGEN_TAIL_RE_def rx_group_def)
  from rx_lazy_star_Some[OF this] obtain a b where ab: "t = a @ b"
    "rx_star is_space (rx_group rx_allergen_group
             (\<lambda>g2. rx_star is_space (rx_dollar
                (\<lambda>r. Some (take (length t - length b) t, g2))))) b = Some y"
    by auto
  from tail_rest_Some[OF ab(2)] obtain ws g ws2 where
    g: "b = ws @ [40] @ g @ [41] @ ws2" "g \<noteq> []" "list_all allergen_char g" "list_all is_space ws2"
    by auto
  have "ws2 = []"
  proof (rule ccontr)
    assume ne: "ws2 \<noteq> []"
    then have "last t = last ws2" using ab(1) g(1) by simp
    moreover have "is_space (last ws2)" using ne g(4) by (auto simp: list_all_iff)
    moreover have "t \<noteq> []" using ab(1) g(1) by simp
    ultimately show False using assms(2) by simp
  qed
  then have "t = (a @ ws) @ [40] @ g @ [41] \<and> g \<noteq> [] \<and> list_all allergen_char g"
    using ab(1) g(1,2,3) by simp
  then show ?thesis by (intro exI)
qed

lemma strip_chars_group:
  assumes "g \<noteq> []" and "40 \<notin> set g" and "41 \<notin> set g"
  shows "strip_chars [40, 41] ([40] @ g @ [41]) = g"
proof -
  obtain c r where g: "g = c # r" using assms(1) by (cases g) auto
  have c: "c \<noteq> 40" "c \<noteq> 41" using assms(2,3) g by auto
  have l: "last g \<noteq> 40" "last g \<noteq> 41" using assms by (metis last_in_set)+
  have "dropWhile (\<lambda>c. c \<in> set [40, 41]) ([40] @ g @ [41]) = g @ [41]" using g c by simp
  moreover have "dropWhile (\<lambda>c. c \<in> set [40, 41]) (rev (g @ [41])) = rev g"
  proof -
    define rg where "rg = rev g"
    have "rg \<noteq> []" "hd rg = last g" using assms(1) by (simp_all add: rg_def hd_rev)
    then obtain x xs where x: "rg = x # xs" "x = last g" by (cases rg) auto
    have "dropWhile (\<lambda>c. c \<in> set [40, 41]) (41 # rg) = rg" using x l by simp
    then show ?thesis by (simp add: rg_def)
  qed
  ultimately show ?thesis by (simp add: strip_chars_def)
qed

lemma split_allergens_group:
  assumes "g \<noteq> []" and "list_all allergen_char g" and "10 \<notin> set p"
  shows "split_allergens (p @ [40] @ g @ [41]) = (strip p, group_codes g)"
proof -
  have "40 \<notin> set g" "41 \<notin> set g" using allergen_char_not_paren[OF assms(2)] by simp_all
  then have "strip_chars [40, 41] ([40] @ g @ [41]) = g" using assms(1) by (intro strip_chars_group)
  then show ?thesis
    using ALLERGEN_TAIL_RE_match[OF assms]
    by (simp add: split_allergens_def group_codes_def strip_rstrip)
qed

lemma title_examples:
  "split_allergens (ascii ''Gulasch mit Sp'' @ [228] @ ascii ''tzle (2,3,8a)'') =
     (ascii ''Gulasch mit Sp'' @ [228] @ ascii ''tzle'', {ascii ''2'', ascii ''3'', ascii ''8a''})"
  "split_allergens (ascii ''Pasta (vegan)'') = (ascii ''Pasta'', {ascii ''vegan''})"
  "\<not> code_group_tail (ascii ''Pasta (vegan)'')"
  "code_group_tail (ascii ''Gulasch mit Sp'' @ [228] @ ascii ''tzle (2,3,8a)'')"
  "full_title [ascii ''Pasta (vegan)''] = ascii ''Pasta (vegan)''"
  by (simp_all add: split_allergens_def ALLERGEN_TAIL_RE_def rx_allergen_group_def allergen_char_def
      code_group_tail_def code_token_def lower_letter_def full_title_def re_sub_def
      TITLE_SPACE_RE_def text_eval rx_eval del: set_filter cong: prod.case_cong_weak)

text \<open>
  Claim C4, as amended. The extractor splits a group off the joined title exactly when
  the title ends with a group in parentheses of one or more characters that are digits
  0-9, commas, periods, whitespace or lowercase letters a-z (so also a group such as
  \<open>(vegan)\<close>). The title is then the text before the group, trimmed, and the codes are
  the pieces of the group between the commas, trimmed, without the blank ones. The title
  text \<open>Gulasch mit Spaetzle (2,3,8a)\<close>, written with a-umlaut, gives the title before the
  group and the codes 2, 3 and 8a. A title without such a group keeps its text and has no
  code.
\<close>

theorem allergen_tail:
  "(ALLERGEN_TAIL_RE (full_title tls) \<noteq> None \<longleftrightarrow>
      (\<exists>p g. full_title tls = p @ [40] @ g @ [41] \<and> g \<noteq> [] \<and> list_all allergen_char g)) \<and>
   (full_title tls = p @ [40] @ g @ [41] \<longrightarrow> g \<noteq> [] \<longrightarrow> list_all allergen_char g \<longrightarrow>
      split_allergens (full_title tls) = (strip p, group_codes g)) \<and>
   (ALLERGEN_TAIL_RE (full_title tls) = None \<longrightarrow>
      split_allergens (full_title tls) = (full_title tls, {})) \<and>
   split_allergens (ascii ''Gulasch mit Sp'' @ [228] @ ascii ''tzle (2,3,8a)'') =
     (ascii ''Gulasch mit Sp'' @ [228] @ ascii ''tzle'', {ascii ''2'', ascii ''3'', ascii ''8a''})"
proof (intro conjI impI)
  have shape: "10 \<notin> set (full_title tls)"
    "full_title tls = [] \<or> \<not> is_space (last (full_title tls))"
    using full_title_shape[of tls] by simp_all
  show "ALLERGEN_TAIL_RE (full_title tls) \<noteq> None \<longleftrightarrow>
      (\<exists>p g. full_title tls = p @ [40] @ g @ [41] \<and> g \<noteq> [] \<and> list_all allergen_char g)"
  proof
    assume "ALLERGEN_TAIL_RE (full_title tls) \<noteq> None"
    then obtain y where "ALLERGEN_TAIL_RE (full_title tls) = Some y" by auto
    then show "\<exists>p g. full_title tls = p @ [40] @ g @ [41] \<and> g \<noteq> [] \<and> list_all allergen_char g"
      using shape(2) by (rule ALLERGEN_TAIL_RE_Some)
  next
    assume "\<exists>p g. full_title tls = p @ [40] @ g @ [41] \<and> g \<noteq> [] \<and> list_all allergen_char g"
    then obtain q h where h: "full_title tls = q @ [40] @ h @ [41]" "h \<noteq> []"
      "list_all allergen_char h" by blast
    then have "10 \<notin> set q" using shape(1) by auto
    from ALLERGEN_TAIL_RE_match[OF h(2,3) this] show "ALLERGEN_TAIL_RE (full_title tls) \<noteq> None"
      by (simp only: h(1)) simp
  qed
next
  assume t: "full_title tls = p @ [40] @ g @ [41]" and g: "g \<noteq> []" "list_all allergen_char g"
  have "10 \<notin> set (full_title tls)" using full_title_shape[of tls] by simp
  then have "10 \<notin> set p" using t by auto
  from split_allergens_group[OF g this]
  show "split_allergens (full_title tls) = (strip p, group_codes g)" by (simp only: t)
next
  assume "ALLERGEN_TAIL_RE (full_title tls) = None"
  then show "split_allergens (full_title tls) = (full_title tls, {})"
    by (simp add: split_allergens_def)
next
  show "split_allergens (ascii ''Gulasch mit Sp'' @ [228] @ ascii ''tzle (2,3,8a)'') =
     (ascii ''Gulasch mit Sp'' @ [228] @ ascii ''tzle'', {ascii ''2'', ascii ''3'', ascii ''8a''})"
    by (rule title_examples(1))
qed

theorem allergen_tail_witness:
  "full_title [ascii ''Pasta (vegan)''] = ascii ''Pasta '' @ [40] @ ascii ''vegan'' @ [41] \<and>
   ascii ''vegan'' \<noteq> [] \<and> list_all allergen_char (ascii ''vegan'') \<and>
   split_allergens (full_title [ascii ''Pasta (vegan)'']) =
     (strip (ascii ''Pasta ''), group_codes (ascii ''vegan'')) \<and>
   ALLERGEN_TAIL_RE (full_title [ascii ''Pasta (vegan)'']) \<noteq> None"
proof -
  have a: "full_title [ascii ''Pasta (vegan)''] = ascii ''Pasta '' @ [40] @ ascii ''vegan'' @ [41]"
    by (simp add: title_examples(5)) (simp add: ascii_def)
  have b: "ascii ''vegan'' \<noteq> []" "list_all allergen_char (ascii ''vegan'')"
    by (simp_all add: ascii_def allergen_char_def)
  show ?thesis
    using a b allergen_tail[of "[ascii ''Pasta (vegan)'']" "ascii ''Pasta ''" "ascii ''vegan''"]
    by blast
qed

text \<open>
  Claim C4 as it is stated fails: \<open>(vegan)\<close> is no group of codes (digits and at most one
  letter), and the extractor takes it for the allergens of the dish \<open>Pasta (vegan)\<close>.
\<close>

theorem allergen_tail_counterexample:
  "full_title [ascii ''Pasta (vegan)''] = ascii ''Pasta (vegan)'' \<and>
   \<not> code_group_tail (ascii ''Pasta (vegan)'') \<and>
   split_allergens (ascii ''Pasta (vegan)'') = (ascii ''Pasta'', {ascii ''vegan''}) \<and>
   code_group_tail (ascii ''Gulasch mit Sp'' @ [228] @ ascii ''tzle (2,3,8a)'')"
  using title_examples(2,3,4,5) by blast

end
